theory Spec2Isabelle
  imports Main "HOL-Library.AList" "HOL-Library.Multiset"
begin

section \<open>Python values used by the analysis engine of app.py\<close>

text \<open>
  Exceptions that the modelled code can meet. All of them are subclasses of Python's
  \<open>Exception\<close>, so an \<open>except Exception\<close> handler catches each of them.
\<close>

datatype py_exc = UnicodeDecodeError | TypeError | SyntaxError | OSError | ValueError | RecursionError

text \<open>
  The syntax tree that \<open>ast.parse\<close> returns, reduced to what app.py inspects:
  the class of a node (\<open>isinstance\<close> tests), the attributes read from it, the text that
  \<open>ast.get_source_segment(content, node)\<close> yields for it (an optional string), and its
  child nodes in the order of \<open>ast.iter_child_nodes\<close>.

  \<open>call_func\<close> is the \<open>func\<close> attribute of an \<open>ast.Call\<close>: an \<open>ast.Name\<close> has an
  \<open>id\<close>, an \<open>ast.Attribute\<close> has an \<open>attr\<close>, every other expression has neither.
  \<open>Return has_value\<close> records whether \<open>child.value\<close> is present. An
  \<open>ast.AsyncFunctionDef\<close> is not an \<open>ast.FunctionDef\<close> and falls under \<open>OtherNode\<close>.
\<close>

datatype call_func = FuncName string | FuncAttr string | FuncOther

datatype node_kind =
    Module
  | FunctionDef string int
  | ClassDef string
  | Return bool
  | Call call_func int
  | OtherNode

datatype ast = AstNode (kind: node_kind) (segment: "string option") (children: "ast list")

text \<open>
  What opening, reading (as UTF-8) and \<open>ast.parse\<close>-ing a path gives: an exception, or the
  content together with its tree. The file system is a function from absolute paths.
\<close>

datatype file_result = Raises py_exc | Source string ast

type_synonym filesystem = "string \<Rightarrow> file_result"

text \<open>The dictionaries of app.py, one record per shape, optional keys as options.\<close>

record func_rec =
  func_name :: string
  func_code :: "string option"
  func_returns :: "string list"
  func_file :: string

text \<open>
  A function dictionary once \<open>analyze_directory\<close> has stored it in \<open>all_functions\<close>:
  the same keys plus \<open>called_by\<close>.
\<close>

record func_entry = func_rec +
  func_called_by :: "string list"

record class_rec =
  class_name :: string
  class_code :: "string option"
  class_file :: string

datatype node_type = FileNode | FunctionNode | ClassNode

record node =
  node_id :: string
  node_name :: string
  node_type :: node_type
  node_code :: "string option"
  node_returns :: "string list option"
  node_called_by :: "string list option"
  node_file :: "string option"
  node_file_path :: string

record edge =
  source :: string
  target :: string

text \<open>
  A graph dictionary. \<open>directory_data\<close> starts as the empty dictionary \<open>{}\<close>, which has
  neither key; \<open>analyze_directory\<close> returns a dictionary with both.
\<close>

record graph =
  nodes :: "node list option"
  edges :: "edge list option"

section \<open>Strings and paths\<close>

text \<open>
  \<open>str.strip()\<close>: characters are code points below 256; the white space among them is
  what \<open>str.isspace\<close> accepts there.
\<close>

definition isspace :: "char \<Rightarrow> bool" where
  "isspace c = (of_char c \<in> {9, 10, 11, 12, 13, 28, 29, 30, 31, 32, 133, 160 :: nat})"

definition strip :: "string \<Rightarrow> string" where
  "strip s = rev (dropWhile isspace (rev (dropWhile isspace s)))"

definition endswith :: "string \<Rightarrow> string \<Rightarrow> bool" where
  "endswith s suf = (take (length suf) (rev s) = rev suf)"

text \<open>\<open>os.path.basename\<close> on POSIX: everything after the last slash.\<close>

definition basename :: "string \<Rightarrow> string" where
  "basename p = rev (takeWhile (\<lambda>c. c \<noteq> CHR ''/'') (rev p))"

text \<open>\<open>os.path.join(a, b)\<close> on POSIX for a component \<open>b\<close> that does not start with a slash.\<close>

definition path_join :: "string \<Rightarrow> string \<Rightarrow> string" where
  "path_join a b = (if a = [] \<or> last a = CHR ''/'' then a @ b else a @ ''/'' @ b)"

text \<open>
  A discovered file is kept as its components below the analysed directory
  (\<open>[''pkg'', ''b.py'']\<close> for \<open>pkg/b.py\<close>). \<open>file_path\<close> is the string that
  \<open>os.path.join(root, fn)\<close> builds during the walk, \<open>rel_name\<close> is
  \<open>os.path.relpath(file_path, directory).replace('\\', '/')\<close>.
\<close>

type_synonym path = "string list"

definition file_path :: "string \<Rightarrow> path \<Rightarrow> string" where
  "file_path directory p = foldl path_join directory p"

fun relpath :: "path \<Rightarrow> string" where
  "relpath [] = ''.''"
| "relpath [c] = c"
| "relpath (c # cs) = c @ ''/'' @ relpath cs"

definition rel_name :: "path \<Rightarrow> string" where
  "rel_name p = map (\<lambda>c. if c = CHR 0x5C then CHR ''/'' else c) (relpath p)"

section \<open>ast.walk\<close>

text \<open>
  \<open>ast.walk\<close> keeps a deque, pops from the left and extends on the right with the
  children of the popped node: a breadth-first order.
\<close>

function walk_queue :: "ast list \<Rightarrow> ast list" where
  "walk_queue [] = []"
| "walk_queue (n # todo) = n # walk_queue (todo @ children n)"
  by pat_completeness auto
termination
proof (relation "measure (\<lambda>q. sum_list (map size q))")
  show "wf (measure (\<lambda>q. sum_list (map size q)))" by simp
next
  fix n :: ast and todo :: "ast list"
  have "sum_list (map size (children n)) < size n"
    by (cases n) (simp add: size_list_conv_sum_list)
  then show "(todo @ children n, n # todo) \<in> measure (\<lambda>q. sum_list (map size q))"
    by simp
qed

definition ast_walk :: "ast \<Rightarrow> ast list" where
  "ast_walk n = walk_queue [n]"

section \<open>parse_python_file\<close>

text \<open>The loop over \<open>ast.walk(node)\<close> that fills \<open>returns\<close> for one function definition.\<close>

fun collect_returns :: "ast list \<Rightarrow> string list \<Rightarrow> string list" where
  "collect_returns [] returns = returns"
| "collect_returns (child # rest) returns =
     (case kind child of
        Return has_value \<Rightarrow>
          (if has_value then
             (case segment child of
                Some return_code \<Rightarrow>
                  (if return_code \<noteq> [] then collect_returns rest (returns @ [strip return_code])
                   else collect_returns rest returns)
              | None \<Rightarrow> collect_returns rest returns)
           else collect_returns rest (returns @ [''None'']))
      | _ \<Rightarrow> collect_returns rest returns)"

fun collect_functions :: "string \<Rightarrow> ast list \<Rightarrow> func_rec list \<Rightarrow> func_rec list" where
  "collect_functions fp [] functions = functions"
| "collect_functions fp (n # rest) functions =
     (case kind n of
        FunctionDef name lineno \<Rightarrow>
          collect_functions fp rest
            (functions @ [\<lparr>func_name = name, func_code = segment n,
                           func_returns = collect_returns (ast_walk n) [],
                           func_file = basename fp\<rparr>])
      | _ \<Rightarrow> collect_functions fp rest functions)"

fun collect_classes :: "string \<Rightarrow> ast list \<Rightarrow> class_rec list \<Rightarrow> class_rec list" where
  "collect_classes fp [] classes = classes"
| "collect_classes fp (n # rest) classes =
     (case kind n of
        ClassDef name \<Rightarrow>
          collect_classes fp rest
            (classes @ [\<lparr>class_name = name, class_code = segment n, class_file = basename fp\<rparr>])
      | _ \<Rightarrow> collect_classes fp rest classes)"

text \<open>
  The handler catches \<open>UnicodeDecodeError\<close>, \<open>TypeError\<close> and \<open>SyntaxError\<close> only; any
  other exception of \<open>open\<close>, \<open>read\<close> or \<open>ast.parse\<close> leaves the function (\<open>Inl\<close>).
\<close>

definition parse_python_file ::
  "filesystem \<Rightarrow> string \<Rightarrow> py_exc + (func_rec list \<times> class_rec list \<times> string)" where
  "parse_python_file fs fp =
     (case fs fp of
        Raises e \<Rightarrow>
          (if e \<in> {UnicodeDecodeError, TypeError, SyntaxError} then Inr ([], [], [])
           else Inl e)
      | Source content tree \<Rightarrow>
          Inr (collect_functions fp (ast_walk tree) [],
               collect_classes fp (ast_walk tree) [],
               content))"

section \<open>analyze_directory\<close>

subsection \<open>Listing the files\<close>

text \<open>
  What \<open>os.walk\<close> meets at a directory: its file names and its subdirectories in the
  order of the scan, or a directory that cannot be scanned (missing, not a directory, no
  permission). \<open>os.walk\<close> is called without \<open>onerror\<close>, so it swallows the scan
  error and yields nothing for that directory.
\<close>

datatype dir = Unreadable | Dir "string list" "(string \<times> dir) list"

text \<open>
  The argument of \<open>analyze_directory\<close> as \<open>os.walk\<close> sees it: a value that \<open>os.walk\<close>
  rejects with an exception (\<open>TypeError\<close> for \<open>None\<close>), or a path with what is found there.
\<close>

datatype walk_root = WalkRaises py_exc | Root dir

definition skip_dirs :: "string set" where
  "skip_dirs = {''.git'', ''.venv'', ''venv'', ''__pycache__'', ''.mypy_cache'',
                ''.pytest_cache'', ''node_modules''}"

fun walk_files :: "path \<Rightarrow> dir \<Rightarrow> path list" where
  "walk_files root Unreadable = []"
| "walk_files root (Dir filenames dirnames) =
     map (\<lambda>fn. root @ [fn]) (filter (\<lambda>fn. endswith fn ''.py'') filenames) @
     concat (map (\<lambda>d. walk_files (root @ [fst d]) (snd d))
                 (filter (\<lambda>d. fst d \<notin> skip_dirs) dirnames))"

definition list_files :: "walk_root \<Rightarrow> py_exc + path list" where
  "list_files r = (case r of WalkRaises e \<Rightarrow> Inl e | Root d \<Rightarrow> Inr (walk_files [] d))"

datatype log_level = INFO | WARNING | ERROR

text \<open>The cap: the warning that is logged (if any) and the files that are kept.\<close>

definition limit_files :: "path list \<Rightarrow> log_level list \<times> path list" where
  "limit_files files =
     (if length files > 50 then ([WARNING], take 50 files) else ([], files))"

subsection \<open>First pass: all_functions\<close>

type_synonym all_functions = "(string \<times> func_entry) list"

fun register_functions :: "string \<Rightarrow> func_rec list \<Rightarrow> all_functions \<Rightarrow> all_functions" where
  "register_functions rel [] af = af"
| "register_functions rel (func # rest) af =
     register_functions rel rest
       (AList.update (rel @ ''::'' @ func_name func)
          \<lparr>func_name = func_name func, func_code = func_code func,
           func_returns = func_returns func, func_file = rel, func_called_by = []\<rparr> af)"

fun first_pass :: "filesystem \<Rightarrow> string \<Rightarrow> path list \<Rightarrow> all_functions \<Rightarrow> all_functions" where
  "first_pass fs directory [] af = af"
| "first_pass fs directory (p # rest) af =
     (case parse_python_file fs (file_path directory p) of
        Inl e \<Rightarrow> first_pass fs directory rest af
      | Inr (functions, classes, content) \<Rightarrow>
          (if content = [] then first_pass fs directory rest af
           else first_pass fs directory rest (register_functions (rel_name p) functions af)))"

subsection \<open>Second pass: who calls what\<close>

fun build_func_line_map :: "ast list \<Rightarrow> (int \<times> string) list \<Rightarrow> (int \<times> string) list" where
  "build_func_line_map [] func_line_map = func_line_map"
| "build_func_line_map (n # rest) func_line_map =
     (case kind n of
        FunctionDef name lineno \<Rightarrow> build_func_line_map rest (AList.update lineno name func_line_map)
      | _ \<Rightarrow> build_func_line_map rest func_line_map)"

text \<open>The loop over \<open>func_line_map.items()\<close> with \<open>current_func\<close> and \<open>best_match_line\<close>.\<close>

fun find_enclosing :: "(int \<times> string) list \<Rightarrow> int \<Rightarrow> string option \<Rightarrow> int \<Rightarrow> string option" where
  "find_enclosing [] call_line current_func best_match_line = current_func"
| "find_enclosing ((func_line, func_name_def) # rest) call_line current_func best_match_line =
     (if func_line \<le> call_line \<and> func_line > best_match_line
      then find_enclosing rest call_line (Some func_name_def) func_line
      else find_enclosing rest call_line current_func best_match_line)"

text \<open>
  The body of the loop over \<open>all_functions.items()\<close> for one call: \<open>ids\<close> are the keys of
  \<open>all_functions\<close>, which the loop does not change.
\<close>

definition record_call ::
  "string list \<Rightarrow> string \<Rightarrow> (int \<times> string) list \<Rightarrow> string \<Rightarrow> int \<Rightarrow>
   string \<times> func_entry \<Rightarrow> string \<times> func_entry" where
  "record_call ids rel func_line_map fname call_line item =
     (case item of (func_id, func_data) \<Rightarrow>
        if func_name func_data = fname then
          (case find_enclosing func_line_map call_line None 0 of
             None \<Rightarrow> item
           | Some current_func \<Rightarrow>
               if current_func \<noteq> [] then
                 (let caller_id = rel @ ''::'' @ current_func in
                  if caller_id \<in> set ids then
                    (if caller_id \<notin> set (func_called_by func_data)
                     then (func_id, func_data\<lparr>func_called_by := func_called_by func_data @ [caller_id]\<rparr>)
                     else item)
                  else item)
               else item)
        else item)"

definition called_name :: "call_func \<Rightarrow> string option" where
  "called_name f = (case f of FuncName ident \<Rightarrow> Some ident | FuncAttr attr \<Rightarrow> Some attr | FuncOther \<Rightarrow> None)"

fun scan_calls :: "string \<Rightarrow> (int \<times> string) list \<Rightarrow> ast list \<Rightarrow> all_functions \<Rightarrow> all_functions" where
  "scan_calls rel func_line_map [] af = af"
| "scan_calls rel func_line_map (n # rest) af =
     (case kind n of
        Call f call_line \<Rightarrow>
          (case called_name f of
             Some fname \<Rightarrow>
               (if fname \<noteq> [] then
                  scan_calls rel func_line_map rest
                    (map (record_call (map fst af) rel func_line_map fname call_line) af)
                else scan_calls rel func_line_map rest af)
           | None \<Rightarrow> scan_calls rel func_line_map rest af)
      | _ \<Rightarrow> scan_calls rel func_line_map rest af)"

text \<open>Any exception of reading or parsing is caught and the file is passed over.\<close>

fun second_pass :: "filesystem \<Rightarrow> string \<Rightarrow> path list \<Rightarrow> all_functions \<Rightarrow> all_functions" where
  "second_pass fs directory [] af = af"
| "second_pass fs directory (p # rest) af =
     (case fs (file_path directory p) of
        Raises e \<Rightarrow> second_pass fs directory rest af
      | Source content tree \<Rightarrow>
          second_pass fs directory rest
            (scan_calls (rel_name p) (build_func_line_map (ast_walk tree) []) (ast_walk tree) af))"

subsection \<open>Building nodes and edges\<close>

text \<open>
  The dictionaries appended to \<open>nodes\<close> and \<open>edges\<close> for a function and for a class.
  \<open>func_data = all_functions.get(func_id, func)\<close> supplies \<open>returns\<close> and \<open>called_by\<close>;
  a parsed \<open>func\<close> has no \<open>called_by\<close> key, so its default is \<open>[]\<close>.
\<close>

definition function_node :: "string \<Rightarrow> string \<Rightarrow> all_functions \<Rightarrow> func_rec \<Rightarrow> node" where
  "function_node rel fp af func =
     (let func_id = rel @ ''::'' @ func_name func in
      \<lparr>node_id = func_id, node_name = func_name func, node_type = FunctionNode,
       node_code = func_code func,
       node_returns = Some (case map_of af func_id of
                              Some func_data \<Rightarrow> func_returns func_data
                            | None \<Rightarrow> func_returns func),
       node_called_by = Some (case map_of af func_id of
                                Some func_data \<Rightarrow> func_called_by func_data
                              | None \<Rightarrow> []),
       node_file = Some rel, node_file_path = fp\<rparr>)"

definition class_node :: "string \<Rightarrow> string \<Rightarrow> class_rec \<Rightarrow> node" where
  "class_node rel fp cls =
     \<lparr>node_id = rel @ ''::'' @ class_name cls, node_name = class_name cls, node_type = ClassNode,
      node_code = class_code cls, node_returns = None, node_called_by = None,
      node_file = Some rel, node_file_path = fp\<rparr>"

definition member_edge :: "string \<Rightarrow> string \<Rightarrow> edge" where
  "member_edge rel name = \<lparr>source = rel, target = rel @ ''::'' @ name\<rparr>"

fun add_function_nodes ::
  "string \<Rightarrow> string \<Rightarrow> all_functions \<Rightarrow> func_rec list \<Rightarrow> node list \<times> edge list \<Rightarrow> node list \<times> edge list" where
  "add_function_nodes rel fp af [] ne = ne"
| "add_function_nodes rel fp af (func # rest) (ns, es) =
     add_function_nodes rel fp af rest
       (ns @ [function_node rel fp af func], es @ [member_edge rel (func_name func)])"

fun add_class_nodes ::
  "string \<Rightarrow> string \<Rightarrow> class_rec list \<Rightarrow> node list \<times> edge list \<Rightarrow> node list \<times> edge list" where
  "add_class_nodes rel fp [] ne = ne"
| "add_class_nodes rel fp (cls # rest) (ns, es) =
     add_class_nodes rel fp rest
       (ns @ [class_node rel fp cls], es @ [member_edge rel (class_name cls)])"

definition file_node :: "string \<Rightarrow> string \<Rightarrow> string \<Rightarrow> node" where
  "file_node ident content fp =
     \<lparr>node_id = ident, node_name = ident, node_type = FileNode, node_code = Some content,
      node_returns = None, node_called_by = None, node_file = None, node_file_path = fp\<rparr>"

text \<open>
  This loop calls \<open>parse_python_file\<close> outside any \<open>try\<close>: an exception that
  \<open>parse_python_file\<close> does not catch leaves \<open>analyze_directory\<close>.
\<close>

fun build_nodes_edges ::
  "filesystem \<Rightarrow> string \<Rightarrow> all_functions \<Rightarrow> path list \<Rightarrow> node list \<times> edge list \<Rightarrow>
   py_exc + (node list \<times> edge list)" where
  "build_nodes_edges fs directory af [] ne = Inr ne"
| "build_nodes_edges fs directory af (p # rest) (ns, es) =
     (case parse_python_file fs (file_path directory p) of
        Inl e \<Rightarrow> Inl e
      | Inr (functions, classes, content) \<Rightarrow>
          (if content = [] then build_nodes_edges fs directory af rest (ns, es)
           else build_nodes_edges fs directory af rest
                  (add_class_nodes (rel_name p) (file_path directory p) classes
                     (add_function_nodes (rel_name p) (file_path directory p) af functions
                        (ns @ [file_node (rel_name p) content (file_path directory p)], es)))))"

definition empty_graph :: graph where
  "empty_graph = \<lparr>nodes = Some [], edges = Some []\<rparr>"

text \<open>The three loops over \<open>files\<close>, after the listing.\<close>

definition build_graph :: "filesystem \<Rightarrow> string \<Rightarrow> path list \<Rightarrow> py_exc + graph" where
  "build_graph fs directory files =
     (let all_functions = second_pass fs directory files (first_pass fs directory files []) in
      case build_nodes_edges fs directory all_functions files ([], []) of
        Inl e \<Rightarrow> Inl e
      | Inr (ns, es) \<Rightarrow> Inr \<lparr>nodes = Some ns, edges = Some es\<rparr>)"

definition analyze_directory :: "filesystem \<Rightarrow> string \<Rightarrow> walk_root \<Rightarrow> py_exc + graph" where
  "analyze_directory fs directory root =
     (case list_files root of
        Inl e \<Rightarrow> Inr empty_graph
      | Inr files \<Rightarrow> build_graph fs directory (snd (limit_files files)))"

section \<open>The shared graph\<close>

text \<open>\<open>directory_data = {}\<close> at import time.\<close>

definition directory_data_init :: graph where
  "directory_data_init = \<lparr>nodes = None, edges = None\<rparr>"

text \<open>
  \<open>json.loads(json.dumps(directory_data))\<close> copies a dictionary of strings, lists and
  \<open>None\<close> unchanged; nothing in such a dictionary makes \<open>json.dumps\<close> raise, so the
  handler that would return \<open>{"nodes": [], "edges": []}\<close> is never entered.
\<close>

definition get_directory_data_snapshot :: "graph \<Rightarrow> graph" where
  "get_directory_data_snapshot directory_data = directory_data"

definition set_directory_data :: "graph \<Rightarrow> graph \<Rightarrow> graph" where
  "set_directory_data new_data directory_data = new_data"

text \<open>How the readers of a snapshot look at it: \<open>snapshot.get('nodes', [])\<close>.\<close>

definition get_nodes :: "graph \<Rightarrow> node list" where
  "get_nodes g = (case nodes g of Some ns \<Rightarrow> ns | None \<Rightarrow> [])"

definition get_edges :: "graph \<Rightarrow> edge list" where
  "get_edges g = (case edges g of Some es \<Rightarrow> es | None \<Rightarrow> [])"

section \<open>CodeFileHandler.reanalyze_file\<close>

text \<open>The function dictionary of the merge: \<open>returns\<close> of the fresh parse, \<open>called_by\<close> empty.\<close>

definition merged_function_node :: "string \<Rightarrow> string \<Rightarrow> func_rec \<Rightarrow> node" where
  "merged_function_node filename fp func =
     \<lparr>node_id = filename @ ''::'' @ func_name func, node_name = func_name func,
      node_type = FunctionNode, node_code = func_code func,
      node_returns = Some (func_returns func), node_called_by = Some [],
      node_file = Some filename, node_file_path = fp\<rparr>"

fun merge_function_nodes ::
  "string \<Rightarrow> string \<Rightarrow> func_rec list \<Rightarrow> node list \<times> edge list \<Rightarrow> node list \<times> edge list" where
  "merge_function_nodes filename fp [] ne = ne"
| "merge_function_nodes filename fp (func # rest) (ns, es) =
     merge_function_nodes filename fp rest
       (ns @ [merged_function_node filename fp func],
        es @ [member_edge filename (func_name func)])"

text \<open>
  The whole body is inside \<open>try ... except Exception\<close>, and the parse comes before any
  change of \<open>directory_data\<close>: an exception of \<open>parse_python_file\<close> leaves the dictionary
  as it was. The result is the new value of \<open>directory_data\<close>.
\<close>

definition reanalyze_file :: "filesystem \<Rightarrow> string \<Rightarrow> graph \<Rightarrow> graph" where
  "reanalyze_file fs fp directory_data =
     (let filename = basename fp in
      case parse_python_file fs fp of
        Inl e \<Rightarrow> directory_data
      | Inr (functions, classes, content) \<Rightarrow>
          if content = [] then directory_data
          else
            (let d = (if nodes directory_data = None \<or> edges directory_data = None
                      then \<lparr>nodes = Some [], edges = Some []\<rparr> else directory_data);
                 ns = filter (\<lambda>n. \<not> (node_file n = Some filename \<or> node_id n = filename))
                        (get_nodes d);
                 es = filter (\<lambda>e. source e \<noteq> filename) (get_edges d);
                 ne = add_class_nodes filename fp classes
                        (merge_function_nodes filename fp functions
                           (ns @ [file_node filename content fp], es))
             in \<lparr>nodes = Some (fst ne), edges = Some (snd ne)\<rparr>))"

section \<open>Concrete directories\<close>

text \<open>
  \<open>a.py\<close> with \<open>def f(): return 1\<close> on line 1 and \<open>def g(): return 2\<close> on line 2,
  the same file with \<open>f\<close> alone, and a file that defines \<open>h\<close>.
\<close>

definition def_node :: "string \<Rightarrow> int \<Rightarrow> string \<Rightarrow> string \<Rightarrow> ast" where
  "def_node name lineno ret text =
     AstNode (FunctionDef name lineno) (Some text)
       [AstNode OtherNode None [],
        AstNode (Return True) (Some ret) [AstNode OtherNode None []]]"

definition content_fg :: string where
  "content_fg = ''def f(): return 1'' @ [CHR 0x0A] @ ''def g(): return 2''"

definition tree_fg :: ast where
  "tree_fg = AstNode Module None
     [def_node ''f'' 1 ''return 1'' ''def f(): return 1'',
      def_node ''g'' 2 ''return 2'' ''def g(): return 2'']"

definition tree_f :: ast where
  "tree_f = AstNode Module None [def_node ''f'' 1 ''return 1'' ''def f(): return 1'']"

definition tree_h :: ast where
  "tree_h = AstNode Module None [def_node ''h'' 1 ''return 0'' ''def h(): return 0'']"

text \<open>
  The project \<open>/proj\<close> holds \<open>a.py\<close> (with \<open>h\<close>) and \<open>sub/a.py\<close> (with \<open>f\<close> and \<open>g\<close>);
  afterwards \<open>sub/a.py\<close> is rewritten to hold \<open>f\<close> alone.
\<close>

definition proj_root :: walk_root where
  "proj_root = Root (Dir [''a.py'', ''notes.txt''] [(''sub'', Dir [''a.py''] [])])"

definition proj_fs :: filesystem where
  "proj_fs fp =
     (if fp = ''/proj/a.py'' then Source ''def h(): return 0'' tree_h
      else if fp = ''/proj/sub/a.py'' then Source content_fg tree_fg
      else Raises OSError)"

definition proj_fs_edited :: filesystem where
  "proj_fs_edited fp =
     (if fp = ''/proj/sub/a.py'' then Source ''def f(): return 1'' tree_f else proj_fs fp)"

text \<open>A project whose only Python file cannot be opened (no read permission).\<close>

definition locked_root :: walk_root where
  "locked_root = Root (Dir [''a.py''] [])"

definition locked_fs :: filesystem where
  "locked_fs fp = Raises OSError"

text \<open>
  The project \<open>/proj\<close> with a third file, \<open>bad.py\<close>, between the two others in walk
  order; \<open>bad.py\<close> has a syntax error in one file system and is empty in the other.
\<close>

definition proj_bad_root :: walk_root where
  "proj_bad_root = Root (Dir [''a.py'', ''bad.py''] [(''sub'', Dir [''a.py''] [])])"

definition proj_bad_fs :: filesystem where
  "proj_bad_fs fp = (if fp = ''/proj/bad.py'' then Raises SyntaxError else proj_fs fp)"

definition proj_empty_fs :: filesystem where
  "proj_empty_fs fp =
     (if fp = ''/proj/bad.py'' then Source [] (AstNode Module None []) else proj_fs fp)"

text \<open>
  A directory with 75 Python files \<open>m.py\<close>, \<open>mx.py\<close>, \<open>mxx.py\<close>, ... in walk order, all
  of them holding \<open>pass\<close> except the first, which has a syntax error.
\<close>

definition big_dir :: dir where
  "big_dir = Dir (map (\<lambda>n. ''m'' @ replicate n (CHR ''x'') @ ''.py'') [0..<75]) []"

definition big_fs :: filesystem where
  "big_fs fp = (if fp = ''/big/m.py'' then Raises SyntaxError
                else Source ''pass'' (AstNode Module None [AstNode OtherNode (Some ''pass'') []]))"

text \<open>The graph of the project \<open>/proj\<close>.\<close>

definition proj_graph :: graph where
  "proj_graph = (case analyze_directory proj_fs ''/proj'' proj_root of
                   Inr g \<Rightarrow> g | Inl e \<Rightarrow> empty_graph)"

section \<open>Notions used to state the properties\<close>

text \<open>A file that the loops of \<open>analyze_directory\<close> pass over without any effect.\<close>

definition skipped :: "filesystem \<Rightarrow> string \<Rightarrow> bool" where
  "skipped fs fp =
     (case fs fp of
        Raises e \<Rightarrow> e \<in> {UnicodeDecodeError, TypeError, SyntaxError}
      | Source content tree \<Rightarrow> content = [] \<and> children tree = [] \<and> kind tree = Module)"

text \<open>A listed file that the loops do not pass over: it parses and its content is not empty.\<close>

definition analysed :: "filesystem \<Rightarrow> string \<Rightarrow> path \<Rightarrow> bool" where
  "analysed fs directory p =
     (case fs (file_path directory p) of Raises e \<Rightarrow> False | Source content tree \<Rightarrow> content \<noteq> [])"

definition content_of :: "filesystem \<Rightarrow> string \<Rightarrow> path \<Rightarrow> string" where
  "content_of fs directory p =
     (case fs (file_path directory p) of Raises e \<Rightarrow> [] | Source content tree \<Rightarrow> content)"

text \<open>What one iteration of the node-building loop appends for the file \<open>p\<close>.\<close>

definition file_contribution ::
  "filesystem \<Rightarrow> string \<Rightarrow> all_functions \<Rightarrow> path \<Rightarrow> node list \<times> edge list" where
  "file_contribution fs directory af p =
     (case parse_python_file fs (file_path directory p) of
        Inl e \<Rightarrow> ([], [])
      | Inr (functions, classes, content) \<Rightarrow>
          if content = [] then ([], [])
          else (file_node (rel_name p) content (file_path directory p) #
                  map (function_node (rel_name p) (file_path directory p) af) functions @
                  map (class_node (rel_name p) (file_path directory p)) classes,
                map (\<lambda>func. member_edge (rel_name p) (func_name func)) functions @
                  map (\<lambda>cls. member_edge (rel_name p) (class_name cls)) classes))"

definition is_file_node :: "node \<Rightarrow> bool" where
  "is_file_node n = (node_type n = FileNode)"

definition file_nodes :: "graph \<Rightarrow> node list" where
  "file_nodes g = filter is_file_node (get_nodes g)"

text \<open>
  The prefix of a node id before its \<open>::\<close> separator (the last one: the name that
  follows it is an identifier and holds no colon). \<open>drop_to_sep\<close> works on the reversed id.
\<close>

fun drop_to_sep :: "string \<Rightarrow> string" where
  "drop_to_sep (a # b # cs) = (if a = CHR '':'' \<and> b = CHR '':'' then cs else drop_to_sep (b # cs))"
| "drop_to_sep cs = []"

definition id_prefix :: "string \<Rightarrow> string" where
  "id_prefix s = rev (drop_to_sep (rev s))"

subsection \<open>Return statements\<close>

definition is_return :: "ast \<Rightarrow> bool" where
  "is_return n = (case kind n of Return has_value \<Rightarrow> True | _ \<Rightarrow> False)"

definition is_function_def :: "ast \<Rightarrow> bool" where
  "is_function_def n = (case kind n of FunctionDef name lineno \<Rightarrow> True | _ \<Rightarrow> False)"

definition has_text :: "ast \<Rightarrow> bool" where
  "has_text n = (case segment n of Some s \<Rightarrow> s \<noteq> [] | None \<Rightarrow> False)"

definition text_of :: "ast \<Rightarrow> string" where
  "text_of n = (case segment n of Some s \<Rightarrow> s | None \<Rightarrow> [])"

text \<open>The nodes below a node in source order: the node, then its children's in turn.\<close>

fun source_order :: "ast \<Rightarrow> ast list" where
  "source_order (AstNode k s cs) = AstNode k s cs # concat (map source_order cs)"

text \<open>
  The returns sequence as the specification words it: one entry per return statement
  of the function, in source order, the statement's source text, and \<open><none>\<close> for a
  bare return.
\<close>

definition spec_return_entry :: "ast \<Rightarrow> string" where
  "spec_return_entry n = (if kind n = Return True then text_of n else ''<none>'')"

definition spec_returns :: "ast \<Rightarrow> string list" where
  "spec_returns fn = map spec_return_entry (filter is_return (source_order fn))"

text \<open>
  The returns sequence as the code builds it: the return statements in the order of
  \<open>ast.walk\<close>, the stripped source text, and \<open>None\<close> for a bare return.
\<close>

definition return_entry :: "ast \<Rightarrow> string" where
  "return_entry n = (if kind n = Return True then strip (text_of n) else ''None'')"

definition walk_returns :: "ast \<Rightarrow> string list" where
  "walk_returns fn = map return_entry (filter is_return (ast_walk fn))"

definition parsed_functions :: "filesystem \<Rightarrow> string \<Rightarrow> func_rec list" where
  "parsed_functions fs fp =
     (case parse_python_file fs fp of
        Inr (functions, classes, content) \<Rightarrow> functions
      | Inl e \<Rightarrow> [])"

text \<open>
  \<open>guard.py\<close>: a function \<open>f(x)\<close> whose body is \<open>if x: return\<close> followed by
  \<open>return 2\<close>. The children of the definition are its arguments, the \<open>if\<close> statement
  (test and body) and the last statement.
\<close>

definition guard_tree :: ast where
  "guard_tree = AstNode Module None
     [AstNode (FunctionDef ''f'' 1) (Some ''def f(x): ...'')
        [AstNode OtherNode None [AstNode OtherNode (Some ''x'') []],
         AstNode OtherNode (Some ''if x: return'')
           [AstNode OtherNode (Some ''x'') [], AstNode (Return False) (Some ''return'') []],
         AstNode (Return True) (Some ''return 2'') [AstNode OtherNode (Some ''2'') []]]]"

definition guard_fs :: filesystem where
  "guard_fs fp = Source ''def f(x): ...'' guard_tree"

subsection \<open>Call attribution\<close>

text \<open>The start line and the name of a function definition, and those of a node list.\<close>

definition def_entry :: "ast \<Rightarrow> (int \<times> string) list" where
  "def_entry n = (case kind n of FunctionDef name lineno \<Rightarrow> [(lineno, name)] | _ \<Rightarrow> [])"

definition function_defs :: "ast list \<Rightarrow> (int \<times> string) list" where
  "function_defs ns = concat (map def_entry ns)"

text \<open>
  The enclosing function as the specification words it: among the definitions that
  start at or before the line of the call, the one with the greatest start line (line
  numbers start at 1; of several definitions on that one line, the last).
\<close>

definition nearest_preceding_def :: "(int \<times> string) list \<Rightarrow> int \<Rightarrow> string option" where
  "nearest_preceding_def defs call_line =
     (let cands = filter (\<lambda>d. 0 < fst d \<and> fst d \<le> call_line) defs in
      if cands = [] then None
      else Some (snd (last (filter (\<lambda>d. fst d = Max (set (map fst cands))) cands))))"

text \<open>The called name and the line of a call expression, and those of a node list.\<close>

definition call_entry :: "ast \<Rightarrow> (string \<times> int) list" where
  "call_entry n =
     (case kind n of
        Call f call_line \<Rightarrow> (case called_name f of Some fname \<Rightarrow> [(fname, call_line)] | None \<Rightarrow> [])
      | _ \<Rightarrow> [])"

definition call_sites :: "ast list \<Rightarrow> (string \<times> int) list" where
  "call_sites ns = concat (map call_entry ns)"

text \<open>
  The callers that the specification attributes to the functions named \<open>callee\<close>: for
  each file in turn and each call of that name in it, the node id of the enclosing
  function.
\<close>

definition site_caller :: "string \<Rightarrow> (int \<times> string) list \<Rightarrow> string \<Rightarrow> string \<times> int \<Rightarrow> string list" where
  "site_caller rel defs callee site =
     (if fst site = callee then
        (case nearest_preceding_def defs (snd site) of
           Some current_func \<Rightarrow> [rel @ ''::'' @ current_func]
         | None \<Rightarrow> [])
      else [])"

definition callers_in_file :: "filesystem \<Rightarrow> string \<Rightarrow> string \<Rightarrow> path \<Rightarrow> string list" where
  "callers_in_file fs directory callee p =
     (case fs (file_path directory p) of
        Raises e \<Rightarrow> []
      | Source content tree \<Rightarrow>
          concat (map (site_caller (rel_name p) (function_defs (ast_walk tree)) callee)
                    (call_sites (ast_walk tree))))"

definition attributed_callers :: "filesystem \<Rightarrow> string \<Rightarrow> path list \<Rightarrow> string \<Rightarrow> string list" where
  "attributed_callers fs directory files callee =
     concat (map (callers_in_file fs directory callee) files)"

text \<open>Duplicates suppressed, the order of the first occurrences kept.\<close>

definition first_seen :: "'a list \<Rightarrow> 'a list" where
  "first_seen xs = rev (remdups (rev xs))"

text \<open>
  What \<open>ast.parse\<close> guarantees of a listed file: the names of its function definitions
  are identifiers (not empty, no colon), and an empty content has the empty module as
  its tree.
\<close>

definition wellformed_source :: "filesystem \<Rightarrow> string \<Rightarrow> path \<Rightarrow> bool" where
  "wellformed_source fs directory p =
     (case fs (file_path directory p) of
        Raises e \<Rightarrow> True
      | Source content tree \<Rightarrow>
          (\<forall>d \<in> set (function_defs (ast_walk tree)). snd d \<noteq> [] \<and> CHR '':'' \<notin> set (snd d)) \<and>
          (content = [] \<longrightarrow> children tree = [] \<and> kind tree = Module))"

text \<open>Devices of the proofs: one append to \<open>called_by\<close>, and what a call appends.\<close>

definition add_unique :: "string list \<Rightarrow> string \<Rightarrow> string list" where
  "add_unique called_by caller_id =
     (if caller_id \<notin> set called_by then called_by @ [caller_id] else called_by)"

definition note_calls :: "string list \<Rightarrow> func_entry \<Rightarrow> func_entry" where
  "note_calls cs e = e\<lparr>func_called_by := foldl add_unique (func_called_by e) cs\<rparr>"

definition caller_of :: "string list \<Rightarrow> string \<Rightarrow> (int \<times> string) list \<Rightarrow> int \<Rightarrow> string list" where
  "caller_of ids rel func_line_map call_line =
     (case find_enclosing func_line_map call_line None 0 of
        None \<Rightarrow> []
      | Some current_func \<Rightarrow>
          if current_func \<noteq> [] \<and> rel @ ''::'' @ current_func \<in> set ids
          then [rel @ ''::'' @ current_func] else [])"

definition call_event ::
  "string list \<Rightarrow> string \<Rightarrow> (int \<times> string) list \<Rightarrow> string \<Rightarrow> ast \<Rightarrow> string list" where
  "call_event ids rel func_line_map name n =
     (case kind n of
        Call f call_line \<Rightarrow>
          (case called_name f of
             Some fname \<Rightarrow>
               if fname \<noteq> [] \<and> fname = name then caller_of ids rel func_line_map call_line else []
           | None \<Rightarrow> [])
      | _ \<Rightarrow> [])"

definition scan_events ::
  "string list \<Rightarrow> string \<Rightarrow> (int \<times> string) list \<Rightarrow> string \<Rightarrow> ast list \<Rightarrow> string list" where
  "scan_events ids rel func_line_map name ns =
     concat (map (call_event ids rel func_line_map name) ns)"

definition pass_events ::
  "filesystem \<Rightarrow> string \<Rightarrow> string list \<Rightarrow> string \<Rightarrow> path list \<Rightarrow> string list" where
  "pass_events fs directory ids name files =
     concat (map (\<lambda>p. case fs (file_path directory p) of
                         Raises e \<Rightarrow> []
                       | Source content tree \<Rightarrow>
                           scan_events ids (rel_name p)
                             (build_func_line_map (ast_walk tree) []) name (ast_walk tree))
               files)"

text \<open>
  \<open>/link/a.py\<close>: \<open>caller\<close> (line 1) calls \<open>callee\<close> on lines 2 and 3, then
  \<open>callee\<close> is defined on line 4; \<open>/link/b.py\<close>: \<open>other\<close> (line 1) calls
  \<open>obj.callee\<close> on line 2.
\<close>

definition call_node :: "call_func \<Rightarrow> int \<Rightarrow> ast" where
  "call_node f call_line = AstNode OtherNode None [AstNode (Call f call_line) None []]"

definition link_tree_a :: ast where
  "link_tree_a = AstNode Module None
     [AstNode (FunctionDef ''caller'' 1) (Some ''def caller(): ...'')
        [AstNode OtherNode None [],
         call_node (FuncName ''callee'') 2,
         call_node (FuncName ''callee'') 3],
      def_node ''callee'' 4 ''return 1'' ''def callee(): return 1'']"

definition link_tree_b :: ast where
  "link_tree_b = AstNode Module None
     [AstNode (FunctionDef ''other'' 1) (Some ''def other(obj): obj.callee()'')
        [AstNode OtherNode None [], call_node (FuncAttr ''callee'') 2]]"

definition link_root :: walk_root where
  "link_root = Root (Dir [''b.py'', ''a.py''] [])"

definition link_fs :: filesystem where
  "link_fs fp =
     (if fp = ''/link/a.py'' then Source ''def caller(): ...'' link_tree_a
      else if fp = ''/link/b.py'' then Source ''def other(obj): obj.callee()'' link_tree_b
      else Raises OSError)"

definition link_graph :: graph where
  "link_graph = (case analyze_directory link_fs ''/link'' link_root of
                   Inr g \<Rightarrow> g | Inl e \<Rightarrow> empty_graph)"

subsection \<open>The graph of a full build\<close>

text \<open>The files that \<open>analyze_directory\<close> keeps after the listing and the cap.\<close>

definition kept_files :: "walk_root \<Rightarrow> path list" where
  "kept_files root = (case list_files root of Inl e \<Rightarrow> [] | Inr files \<Rightarrow> snd (limit_files files))"

definition file_nodes_with_id :: "graph \<Rightarrow> string \<Rightarrow> node list" where
  "file_nodes_with_id g ident = filter (\<lambda>f. is_file_node f \<and> node_id f = ident) (get_nodes g)"




text \<open>
  The project \<open>/site\<close>: \<open>a.py\<close> defines \<open>f\<close>, \<open>pkg/b.py\<close> defines the class \<open>C\<close>,
  and \<open>bad.py\<close>, between them in walk order, has a syntax error. In a second file
  system \<open>bad.py\<close> holds a NUL byte, for which \<open>ast.parse\<close> raises \<open>ValueError\<close>.
\<close>

definition tree_c :: ast where
  "tree_c = AstNode Module None
     [AstNode (ClassDef ''C'') (Some ''class C: pass'') [AstNode OtherNode (Some ''pass'') []]]"

definition site_root :: walk_root where
  "site_root = Root (Dir [''a.py'', ''bad.py''] [(''pkg'', Dir [''b.py''] [])])"

definition site_fs :: filesystem where
  "site_fs fp =
     (if fp = ''/site/a.py'' then Source ''def f(): return 1'' tree_f
      else if fp = ''/site/pkg/b.py'' then Source ''class C: pass'' tree_c
      else if fp = ''/site/bad.py'' then Raises SyntaxError
      else Raises OSError)"


definition site_graph :: graph where
  "site_graph = (case analyze_directory site_fs ''/site'' site_root of
                   Inr g \<Rightarrow> g | Inl e \<Rightarrow> empty_graph)"

text \<open>
  The project \<open>/clash\<close>: a file whose name is \<open>w\<close>, a backslash and \<open>in.py\<close>, beside a
  directory \<open>w\<close> that holds \<open>in.py\<close>.
\<close>

definition clash_root :: walk_root where
  "clash_root = Root (Dir [''w'' @ [CHR 0x5C] @ ''in.py''] [(''w'', Dir [''in.py''] [])])"

definition clash_fs :: filesystem where
  "clash_fs fp =
     (if fp = ''/clash/w'' @ [CHR 0x5C] @ ''in.py'' then Source ''def f(): return 1'' tree_f
      else if fp = ''/clash/w/in.py'' then Source ''def h(): return 0'' tree_h
      else Raises OSError)"

definition clash_graph :: graph where
  "clash_graph = (case analyze_directory clash_fs ''/clash'' clash_root of
                    Inr g \<Rightarrow> g | Inl e \<Rightarrow> empty_graph)"

section \<open>Properties\<close>

subsection \<open>The loops over the files\<close>

lemma first_pass_append:
  "first_pass fs directory (xs @ ys) af = first_pass fs directory ys (first_pass fs directory xs af)"
  by (induction xs arbitrary: af) (auto split: sum.splits)

lemma second_pass_append:
  "second_pass fs directory (xs @ ys) af = second_pass fs directory ys (second_pass fs directory xs af)"
  by (induction xs arbitrary: af) (auto split: file_result.splits)

lemma build_nodes_edges_append:
  "build_nodes_edges fs directory af (xs @ ys) ne =
     (case build_nodes_edges fs directory af xs ne of
        Inl e \<Rightarrow> Inl e
      | Inr ne' \<Rightarrow> build_nodes_edges fs directory af ys ne')"
proof (induction xs arbitrary: ne)
  case Nil
  then show ?case by simp
next
  case (Cons p xs)
  obtain ns es where ne: "ne = (ns, es)" by (cases ne)
  show ?case unfolding ne
    by (cases "parse_python_file fs (file_path directory p)") (auto simp: Cons.IH)
qed

lemma ast_walk_leaf: "children t = [] \<Longrightarrow> ast_walk t = [t]"
  by (simp add: ast_walk_def)

lemma skipped_first_pass:
  "skipped fs (file_path directory p) \<Longrightarrow>
   first_pass fs directory (p # ys) af = first_pass fs directory ys af"
  by (auto simp: skipped_def parse_python_file_def split: file_result.splits)

lemma skipped_second_pass:
  "skipped fs (file_path directory p) \<Longrightarrow>
   second_pass fs directory (p # ys) af = second_pass fs directory ys af"
  by (auto simp: skipped_def ast_walk_leaf split: file_result.splits)

lemma skipped_build_nodes_edges:
  "skipped fs (file_path directory p) \<Longrightarrow>
   build_nodes_edges fs directory af (p # ys) ne = build_nodes_edges fs directory af ys ne"
  by (cases ne) (auto simp: skipped_def parse_python_file_def split: file_result.splits)

lemma skipped_build_graph:
  assumes "skipped fs (file_path directory p)"
  shows "build_graph fs directory (xs @ p # ys) = build_graph fs directory (xs @ ys)"
  using assms
  by (simp add: build_graph_def first_pass_append second_pass_append build_nodes_edges_append
        skipped_first_pass skipped_second_pass skipped_build_nodes_edges Let_def
      del: first_pass.simps second_pass.simps build_nodes_edges.simps
      split: sum.splits)

lemma reanalyze_file_no_content:
  "(\<exists>e. fs fp = Raises e) \<or> (\<exists>t. fs fp = Source [] t) \<Longrightarrow> reanalyze_file fs fp d = d"
  by (auto simp: reanalyze_file_def parse_python_file_def Let_def split: file_result.splits)

lemma analyze_directory_listed:
  "list_files root = Inr files \<Longrightarrow>
   analyze_directory fs directory root = build_graph fs directory (snd (limit_files files))"
  by (simp add: analyze_directory_def)

lemma proj_bad_listing:
  "list_files proj_bad_root = Inr [[''a.py''], [''bad.py''], [''sub'', ''a.py'']]"
  by (simp add: list_files_def proj_bad_root_def endswith_def skip_dirs_def)

lemma proj_bad_limit:
  "snd (limit_files [[''a.py''], [''bad.py''], [''sub'', ''a.py'']]) =
   [[''a.py'']] @ [''bad.py''] # [[''sub'', ''a.py'']]"
  by (simp add: limit_files_def)

lemma proj_bad_path: "file_path ''/proj'' [''bad.py''] = ''/proj/bad.py''"
  by (simp add: file_path_def path_join_def)

subsection \<open>The snapshot before the first build\<close>

text \<open>
  C3, as the claim states it: before the first full build the snapshot has an empty
  nodes sequence and an empty edges sequence. This fails: \<open>directory_data\<close> starts as
  \<open>{}\<close>, and the snapshot of \<open>{}\<close> is \<open>{}\<close>, which has neither key.
\<close>

theorem snapshot_before_build_is_not_empty_graph:
  "\<not> (nodes (get_directory_data_snapshot directory_data_init) = Some [] \<and>
      edges (get_directory_data_snapshot directory_data_init) = Some [])"
  by (simp add: get_directory_data_snapshot_def directory_data_init_def)

text \<open>
  C3, amended: before the first full build the snapshot is the empty dictionary, with
  neither a nodes nor an edges key; read the way its consumers read it
  (\<open>snapshot.get('nodes', [])\<close>, \<open>snapshot.get('edges', [])\<close>) it has no node and no edge.
\<close>

theorem snapshot_before_build:
  "get_directory_data_snapshot directory_data_init = \<lparr>nodes = None, edges = None\<rparr> \<and>
   get_nodes (get_directory_data_snapshot directory_data_init) = [] \<and>
   get_edges (get_directory_data_snapshot directory_data_init) = []"
  by (simp add: get_directory_data_snapshot_def directory_data_init_def get_nodes_def
        get_edges_def)

subsection \<open>Exceptions of analyze_directory\<close>

lemma analyze_directory_unreadable_root:
  "analyze_directory fs directory (Root Unreadable) = Inr empty_graph"
  "analyze_directory fs directory (WalkRaises e) = Inr empty_graph"
  by (simp_all add: analyze_directory_def list_files_def limit_files_def build_graph_def
        empty_graph_def)

text \<open>
  C7: \<open>analyze_directory\<close> never raises. The code does: the loop that builds the nodes
  calls \<open>parse_python_file\<close> outside any \<open>try\<close>, so a listed file that cannot be opened
  (an \<open>OSError\<close>, which \<open>parse_python_file\<close> does not catch) makes \<open>analyze_directory\<close>
  raise, although the first loop catches the same exception and goes on.
\<close>

theorem analyze_directory_raises_on_locked_file:
  "analyze_directory locked_fs ''/proj'' locked_root = Inl OSError"
  by (simp add: analyze_directory_def list_files_def locked_root_def locked_fs_def
        limit_files_def build_graph_def parse_python_file_def endswith_def)

subsection \<open>The node-building loop in closed form\<close>

lemma add_function_nodes_eq:
  "add_function_nodes rel fp af funcs (ns, es) =
     (ns @ map (function_node rel fp af) funcs,
      es @ map (\<lambda>func. member_edge rel (func_name func)) funcs)"
  by (induction funcs arbitrary: ns es) auto

lemma add_class_nodes_eq:
  "add_class_nodes rel fp clss (ns, es) =
     (ns @ map (class_node rel fp) clss,
      es @ map (\<lambda>cls. member_edge rel (class_name cls)) clss)"
  by (induction clss arbitrary: ns es) auto

lemma merge_function_nodes_eq:
  "merge_function_nodes filename fp funcs (ns, es) =
     (ns @ map (merged_function_node filename fp) funcs,
      es @ map (\<lambda>func. member_edge filename (func_name func)) funcs)"
  by (induction funcs arbitrary: ns es) auto

lemma build_nodes_edges_eq:
  "build_nodes_edges fs directory af files (ns, es) = Inr (ns', es') \<Longrightarrow>
   ns' = ns @ concat (map (\<lambda>p. fst (file_contribution fs directory af p)) files) \<and>
   es' = es @ concat (map (\<lambda>p. snd (file_contribution fs directory af p)) files)"
proof (induction files arbitrary: ns es)
  case Nil
  then show ?case by simp
next
  case (Cons p files)
  show ?case
  proof (cases "parse_python_file fs (file_path directory p)")
    case (Inl e)
    with Cons.prems show ?thesis by simp
  next
    case (Inr r)
    obtain funcs clss content where r: "r = (funcs, clss, content)"
      by (cases r)
    show ?thesis
    proof (cases "content = []")
      case True
      with Cons.prems Inr r have "build_nodes_edges fs directory af files (ns, es) = Inr (ns', es')"
        by simp
      from Cons.IH[OF this] show ?thesis
        using Inr r True by (simp add: file_contribution_def)
    next
      case False
      with Cons.prems Inr r have
        "build_nodes_edges fs directory af files
           (ns @ fst (file_contribution fs directory af p),
            es @ snd (file_contribution fs directory af p)) = Inr (ns', es')"
        by (simp add: file_contribution_def add_function_nodes_eq add_class_nodes_eq)
      from Cons.IH[OF this] show ?thesis by simp
    qed
  qed
qed

lemma build_nodes_edges_total:
  assumes "\<forall>p \<in> set files. \<forall>e. parse_python_file fs (file_path directory p) \<noteq> Inl e"
  shows "\<exists>ne'. build_nodes_edges fs directory af files ne = Inr ne'"
  using assms
proof (induction files arbitrary: ne)
  case Nil
  then show ?case by simp
next
  case (Cons p files)
  obtain ns es where ne: "ne = (ns, es)" by (cases ne)
  from Cons.prems obtain r where r: "parse_python_file fs (file_path directory p) = Inr r"
    by (cases "parse_python_file fs (file_path directory p)") auto
  obtain funcs clss content where r': "r = (funcs, clss, content)" by (cases r)
  show ?case using Cons r r' unfolding ne by simp
qed

lemma build_graph_eq:
  assumes "build_graph fs directory files = Inr g"
  shows "get_nodes g = concat (map (\<lambda>p. fst (file_contribution fs directory
            (second_pass fs directory files (first_pass fs directory files [])) p)) files)"
    and "get_edges g = concat (map (\<lambda>p. snd (file_contribution fs directory
            (second_pass fs directory files (first_pass fs directory files [])) p)) files)"
  using assms build_nodes_edges_eq[of fs directory
      "second_pass fs directory files (first_pass fs directory files [])" files "[]" "[]"]
  by (auto simp: build_graph_def Let_def get_nodes_def get_edges_def split: sum.splits)

lemma file_contribution_cases:
  "file_contribution fs directory af p =
    (if analysed fs directory p then
       (case parse_python_file fs (file_path directory p) of
          Inr (functions, classes, content) \<Rightarrow>
            (file_node (rel_name p) (content_of fs directory p) (file_path directory p) #
                  map (function_node (rel_name p) (file_path directory p) af) functions @
                  map (class_node (rel_name p) (file_path directory p)) classes,
                map (\<lambda>func. member_edge (rel_name p) (func_name func)) functions @
                  map (\<lambda>cls. member_edge (rel_name p) (class_name cls)) classes)
        | Inl e \<Rightarrow> ([], []))
     else ([], []))"
  by (auto simp: file_contribution_def analysed_def content_of_def parse_python_file_def
      split: file_result.splits)

lemma file_nodes_of_contribution:
  "filter is_file_node (fst (file_contribution fs directory af p)) =
     (if analysed fs directory p
      then [file_node (rel_name p) (content_of fs directory p) (file_path directory p)] else [])"
  by (auto simp: file_contribution_cases analysed_def parse_python_file_def file_node_def
        function_node_def class_node_def Let_def filter_empty_conv is_file_node_def
      split: file_result.splits)

lemma filter_concat_map:
  "filter P (concat (map f xs)) = concat (map (\<lambda>x. filter P (f x)) xs)"
  by (induction xs) auto

lemma concat_map_if_singleton:
  "concat (map (\<lambda>x. if P x then [f x] else []) xs) = map f (filter P xs)"
  by (induction xs) auto

lemma file_nodes_of_build_graph:
  assumes "build_graph fs directory files = Inr g"
  shows "file_nodes g =
         map (\<lambda>p. file_node (rel_name p) (content_of fs directory p) (file_path directory p))
           (filter (analysed fs directory) files)"
  by (simp add: file_nodes_def build_graph_eq(1)[OF assms] filter_concat_map
        file_nodes_of_contribution concat_map_if_singleton)

lemma limit_files_snd: "snd (limit_files files) = take 50 files"
  by (simp add: limit_files_def)

lemma analyze_directory_file_nodes:
  assumes "list_files root = Inr files" and "analyze_directory fs directory root = Inr g"
  shows "file_nodes g =
         map (\<lambda>p. file_node (rel_name p) (content_of fs directory p) (file_path directory p))
           (filter (analysed fs directory) (take 50 files))"
proof -
  have "build_graph fs directory (take 50 files) = Inr g"
    using assms by (simp add: analyze_directory_def limit_files_snd)
  from file_nodes_of_build_graph[OF this] show ?thesis .
qed

lemma proj_listing: "list_files proj_root = Inr [[''a.py''], [''sub'', ''a.py'']]"
  by (simp add: list_files_def proj_root_def endswith_def skip_dirs_def)

lemma proj_analysis: "analyze_directory proj_fs ''/proj'' proj_root = Inr proj_graph"
  unfolding proj_graph_def by code_simp

lemma node_of_contribution:
  assumes "n \<in> set (fst (file_contribution fs directory af q))"
  shows "analysed fs directory q \<and> node_file_path n = file_path directory q"
  using assms
  by (auto simp: file_contribution_cases file_node_def function_node_def class_node_def Let_def
      split: if_splits sum.splits)

lemma no_node_of_skipped_file:
  assumes "analyze_directory fs directory root = Inr g" and "\<not> analysed fs directory p"
  shows "\<forall>n \<in> set (get_nodes g). node_file_path n \<noteq> file_path directory p"
proof (cases "list_files root")
  case (Inl e)
  with assms(1) have "g = empty_graph" by (simp add: analyze_directory_def)
  then show ?thesis by (simp add: empty_graph_def get_nodes_def)
next
  case (Inr files)
  then have g: "build_graph fs directory (take 50 files) = Inr g"
    using assms(1) by (simp add: analyze_directory_def limit_files_snd)
  show ?thesis
  proof
    fix n assume "n \<in> set (get_nodes g)"
    then obtain q where "n \<in> set (fst (file_contribution fs directory
        (second_pass fs directory (take 50 files) (first_pass fs directory (take 50 files) [])) q))"
      by (auto simp: build_graph_eq(1)[OF g])
    from node_of_contribution[OF this]
    have "analysed fs directory q" and "node_file_path n = file_path directory q" by simp_all
    then show "node_file_path n \<noteq> file_path directory p"
      using assms(2) by (auto simp: analysed_def)
  qed
qed

subsection \<open>Files that cannot be parsed, and empty files\<close>

lemma site_listing: "list_files site_root = Inr [[''a.py''], [''bad.py''], [''pkg'', ''b.py'']]"
  by (simp add: list_files_def site_root_def endswith_def skip_dirs_def)



lemma site_analysis: "analyze_directory site_fs ''/site'' site_root = Inr site_graph"
  unfolding site_graph_def by code_simp







text \<open>
  C8: when re-parsing the modified file fails (reading or parsing raises, or
  \<open>parse_python_file\<close> hands back its unparseable result), \<open>reanalyze_file\<close> leaves
  \<open>directory_data\<close> exactly as it was. It returns normally in every case, so the
  watcher goes on.
\<close>

theorem reanalyze_file_parse_failure:
  assumes "(\<exists>e. fs fp = Raises e) \<or> parse_python_file fs fp = Inr ([], [], [])"
  shows "reanalyze_file fs fp directory_data = directory_data"
  using assms
  by (auto simp: reanalyze_file_def parse_python_file_def Let_def split: file_result.splits)

theorem reanalyze_file_parse_failure_witness:
  "parse_python_file proj_bad_fs ''/proj/bad.py'' = Inr ([], [], []) \<and>
   reanalyze_file proj_bad_fs ''/proj/bad.py''
     \<lparr>nodes = Some [file_node ''bad.py'' ''x = 1'' ''/proj/bad.py''], edges = Some []\<rparr> =
     \<lparr>nodes = Some [file_node ''bad.py'' ''x = 1'' ''/proj/bad.py''], edges = Some []\<rparr>"
proof -
  have 1: "parse_python_file proj_bad_fs ''/proj/bad.py'' = Inr ([], [], [])"
    by (simp add: parse_python_file_def proj_bad_fs_def)
  then have "(\<exists>e. proj_bad_fs ''/proj/bad.py'' = Raises e) \<or>
             parse_python_file proj_bad_fs ''/proj/bad.py'' = Inr ([], [], [])" by simp
  from reanalyze_file_parse_failure[OF this] 1 show ?thesis by simp
qed

text \<open>
  C10: a file that parses but whose content is empty (its tree is the empty module)
  is passed over like an unparseable one: the graph that \<open>analyze_directory\<close> returns is
  the graph built from the other listed files alone, no node of it carries the path of
  the file, and \<open>reanalyze_file\<close> on it leaves \<open>directory_data\<close> as it was.
\<close>

theorem empty_file_skipped:
  assumes "fs (file_path directory p) = Source [] (AstNode Module seg [])"
    and "list_files root = Inr files"
    and "snd (limit_files files) = xs @ p # ys"
  shows "analyze_directory fs directory root = build_graph fs directory (xs @ ys) \<and>
         (\<forall>g. analyze_directory fs directory root = Inr g \<longrightarrow>
              (\<forall>n \<in> set (get_nodes g). node_file_path n \<noteq> file_path directory p)) \<and>
         reanalyze_file fs (file_path directory p) directory_data = directory_data"
proof -
  have sk: "skipped fs (file_path directory p)"
    using assms(1) by (simp add: skipped_def)
  have na: "\<not> analysed fs directory p"
    using assms(1) by (simp add: analysed_def)
  have "analyze_directory fs directory root = build_graph fs directory (xs @ ys)"
    using analyze_directory_listed[OF assms(2)] assms(3) skipped_build_graph[OF sk] by simp
  moreover have "\<forall>g. analyze_directory fs directory root = Inr g \<longrightarrow>
              (\<forall>n \<in> set (get_nodes g). node_file_path n \<noteq> file_path directory p)"
    using no_node_of_skipped_file[OF _ na] by blast
  moreover have "reanalyze_file fs (file_path directory p) directory_data = directory_data"
    using assms(1) by (intro reanalyze_file_no_content) simp
  ultimately show ?thesis by simp
qed

theorem empty_file_skipped_witness:
  "analyze_directory proj_empty_fs ''/proj'' proj_bad_root =
     build_graph proj_empty_fs ''/proj'' [[''a.py''], [''sub'', ''a.py'']] \<and>
   reanalyze_file proj_empty_fs ''/proj/bad.py''
     \<lparr>nodes = Some [file_node ''bad.py'' ''x = 1'' ''/proj/bad.py''], edges = Some []\<rparr> =
     \<lparr>nodes = Some [file_node ''bad.py'' ''x = 1'' ''/proj/bad.py''], edges = Some []\<rparr>"
proof -
  have 1: "proj_empty_fs (file_path ''/proj'' [''bad.py'']) = Source [] (AstNode Module None [])"
    by (simp add: proj_bad_path proj_empty_fs_def)
  show ?thesis
    using empty_file_skipped[where fs = proj_empty_fs and directory = "''/proj''"
        and p = "[''bad.py'']", OF 1 proj_bad_listing proj_bad_limit]
    by (simp add: proj_bad_path)
qed

subsection \<open>The cap of 50 files\<close>

lemma endswith_append: "endswith (s @ suf) suf"
  by (simp add: endswith_def)

lemma big_dir_listing:
  "walk_files [] big_dir = map (\<lambda>n. [''m'' @ replicate n (CHR ''x'') @ ''.py'']) [0..<75]"
proof -
  have "\<And>n. endswith (''m'' @ replicate n (CHR ''x'') @ ''.py'') ''.py''"
    using endswith_append[of "''m'' @ replicate n (CHR ''x'')" "''.py''" for n] by simp
  then show ?thesis
    by (simp add: big_dir_def comp_def del: upt_Suc)
qed

lemma big_fs_analysed:
  "analysed big_fs ''/big'' [CHR ''m'' # replicate n (CHR ''x'') @ ''.py''] = (0 < n)"
  by (cases n) (simp_all add: analysed_def big_fs_def file_path_def path_join_def)

lemma big_fs_parses: "parse_python_file big_fs fp \<noteq> Inl e"
  by (simp add: parse_python_file_def big_fs_def)

text \<open>
  C4, as the claim states it: with more than 50 Python files in the tree, the result
  holds file nodes for exactly the first 50 files in walk order. This fails when one of
  the first 50 cannot be parsed (or is empty): in \<open>big_dir\<close>, with 75 files of which
  the first has a syntax error, the result holds 49 file nodes.
\<close>

theorem cap_with_unparseable_file:
  "length (walk_files [] big_dir) = 75 \<and>
   map_sum id (length \<circ> file_nodes) (analyze_directory big_fs ''/big'' (Root big_dir)) = Inr 49"
proof -
  let ?files = "walk_files [] big_dir"
  have l: "list_files (Root big_dir) = Inr ?files" by (simp add: list_files_def)
  obtain ne where "build_nodes_edges big_fs ''/big''
       (second_pass big_fs ''/big'' (take 50 ?files) (first_pass big_fs ''/big'' (take 50 ?files) []))
       (take 50 ?files) ([], []) = Inr ne"
    using build_nodes_edges_total[of "take 50 ?files" big_fs "''/big''"] big_fs_parses by blast
  then obtain g where g: "analyze_directory big_fs ''/big'' (Root big_dir) = Inr g"
    by (cases ne) (simp add: analyze_directory_def l limit_files_snd build_graph_def Let_def)
  have "take 50 ?files = map (\<lambda>n. [''m'' @ replicate n (CHR ''x'') @ ''.py'']) [0..<50]"
    by (simp add: big_dir_listing take_map del: upt_Suc)
  then have "length (filter (analysed big_fs ''/big'') (take 50 ?files)) =
             length (filter (\<lambda>n. 0 < n) [0..<50])"
    by (simp add: filter_map comp_def big_fs_analysed del: upt_Suc)
  also have "\<dots> = 49"
    by (simp add: upt_conv_Cons[of 0 50] del: upt_Suc)
  finally have "length (file_nodes g) = 49"
    by (simp add: analyze_directory_file_nodes[OF l g])
  with g show ?thesis by (simp add: big_dir_listing del: upt_Suc)
qed

text \<open>
  C4, amended: the file nodes of the result are, in walk order, those of the first 50
  listed files that parse with a content that is not empty (each with the relative name
  as id and the whole content as code); with at most 50 listed files these are all the
  listed files that parse with a content that is not empty. A warning is logged exactly
  when more than 50 files were listed.
\<close>

theorem cap_enforcement:
  assumes "list_files root = Inr files" and "analyze_directory fs directory root = Inr g"
  shows "file_nodes g =
           map (\<lambda>p. file_node (rel_name p) (content_of fs directory p) (file_path directory p))
             (filter (analysed fs directory) (take 50 files)) \<and>
         (length files \<le> 50 \<longrightarrow>
            map node_id (file_nodes g) = map rel_name (filter (analysed fs directory) files)) \<and>
         fst (limit_files files) = (if length files > 50 then [WARNING] else [])"
  using analyze_directory_file_nodes[OF assms]
  by (simp add: limit_files_def comp_def file_node_def)

theorem cap_enforcement_witness:
  "list_files proj_root = Inr [[''a.py''], [''sub'', ''a.py'']] \<and>
   analyze_directory proj_fs ''/proj'' proj_root = Inr proj_graph \<and>
   map node_id (file_nodes proj_graph) = [''a.py'', ''sub/a.py''] \<and>
   fst (limit_files [[''a.py''], [''sub'', ''a.py'']]) = []"
  using cap_enforcement[OF proj_listing proj_analysis] proj_listing proj_analysis
  by (simp add: analysed_def proj_fs_def file_path_def path_join_def rel_name_def content_fg_def
        file_node_def)

subsection \<open>Containment\<close>

lemma drop_to_sep_name:
  "CHR '':'' \<notin> set xs \<Longrightarrow> drop_to_sep (xs @ CHR '':'' # CHR '':'' # r) = r"
proof (induction xs)
  case Nil
  then show ?case by simp
next
  case (Cons x xs)
  then show ?case by (cases xs) auto
qed

lemma id_prefix_member:
  "CHR '':'' \<notin> set name \<Longrightarrow> id_prefix (rel @ ''::'' @ name) = rel"
  using drop_to_sep_name[of "rev name" "rev rel"] by (simp add: id_prefix_def)

lemma member_of_contribution:
  assumes "n \<in> set (fst (file_contribution fs directory af p))" and "node_type n \<noteq> FileNode"
  shows "analysed fs directory p \<and> node_id n = rel_name p @ ''::'' @ node_name n"
  using assms
  by (auto simp: file_contribution_cases file_node_def function_node_def class_node_def Let_def
      split: if_splits sum.splits)

lemma count_file_nodes:
  assumes "distinct (map rel_name files)" and "p \<in> set files" and "analysed fs directory p"
  shows "length (filter (\<lambda>q. rel_name q = rel_name p) (filter (analysed fs directory) files)) = 1"
  using assms
proof (induction files)
  case Nil
  then show ?case by simp
next
  case (Cons q files)
  show ?case
  proof (cases "q = p")
    case True
    have "filter (\<lambda>q. rel_name q = rel_name p) (filter (analysed fs directory) files) = []"
      using Cons.prems(1) True by (force simp: filter_empty_conv image_iff)
    then show ?thesis using True Cons.prems(3) by simp
  next
    case False
    then have "p \<in> set files" using Cons.prems(2) by simp
    moreover have "rel_name q \<noteq> rel_name p" using Cons.prems(1) \<open>p \<in> set files\<close> by auto
    ultimately show ?thesis using Cons by simp
  qed
qed

lemma some_file_node:
  assumes "p \<in> set files" and "analysed fs directory p"
  shows "1 \<le> length (filter (\<lambda>q. rel_name q = rel_name p) (filter (analysed fs directory) files))"
proof -
  have "p \<in> set (filter (\<lambda>q. rel_name q = rel_name p) (filter (analysed fs directory) files))"
    using assms by simp
  then have "0 < length (filter (\<lambda>q. rel_name q = rel_name p) (filter (analysed fs directory) files))"
    by (rule length_pos_if_in_set)
  then show ?thesis by linarith
qed

lemma edge_of_contribution:
  assumes "e \<in> set (snd (file_contribution fs directory af p))"
  shows "source e \<in> node_id ` set (fst (file_contribution fs directory af p)) \<and>
         target e \<in> node_id ` set (fst (file_contribution fs directory af p))"
proof -
  have a: "analysed fs directory p"
    using assms by (auto simp: file_contribution_cases split: if_splits)
  then obtain funcs clss content where
    pr: "parse_python_file fs (file_path directory p) = Inr (funcs, clss, content)"
    by (auto simp: analysed_def parse_python_file_def split: file_result.splits)
  have src: "source e = rel_name p" and
    tgt: "(\<exists>f \<in> set funcs. target e = rel_name p @ ''::'' @ func_name f) \<or>
          (\<exists>c \<in> set clss. target e = rel_name p @ ''::'' @ class_name c)"
    using assms a pr by (auto simp: file_contribution_cases member_edge_def)
  have "source e \<in> node_id ` set (fst (file_contribution fs directory af p))"
    using a pr src by (simp add: file_contribution_cases file_node_def)
  moreover have "target e \<in> node_id ` set (fst (file_contribution fs directory af p))"
    using tgt
  proof
    assume "\<exists>f \<in> set funcs. target e = rel_name p @ ''::'' @ func_name f"
    then obtain f where f: "f \<in> set funcs" "target e = rel_name p @ ''::'' @ func_name f" by blast
    have "node_id (function_node (rel_name p) (file_path directory p) af f) = target e"
      using f(2) by (simp add: function_node_def Let_def)
    then show ?thesis using a pr f(1)
      by (force simp: file_contribution_cases image_iff)
  next
    assume "\<exists>c \<in> set clss. target e = rel_name p @ ''::'' @ class_name c"
    then obtain c where c: "c \<in> set clss" "target e = rel_name p @ ''::'' @ class_name c" by blast
    have "node_id (class_node (rel_name p) (file_path directory p) c) = target e"
      using c(2) by (simp add: class_node_def)
    then show ?thesis using a pr c(1)
      by (force simp: file_contribution_cases image_iff)
  qed
  ultimately show ?thesis by simp
qed

lemma build_graph_containment:
  assumes g: "build_graph fs directory files = Inr g"
  shows "(\<forall>n \<in> set (get_nodes g). node_type n \<noteq> FileNode \<and> CHR '':'' \<notin> set (node_name n) \<longrightarrow>
            1 \<le> length (file_nodes_with_id g (id_prefix (node_id n))) \<and>
            (distinct (map rel_name files) \<longrightarrow>
               length (file_nodes_with_id g (id_prefix (node_id n))) = 1)) \<and>
         (\<forall>e \<in> set (get_edges g). source e \<in> node_id ` set (get_nodes g) \<and>
                                    target e \<in> node_id ` set (get_nodes g))"
proof (intro conjI ballI impI)
  fix n assume n: "n \<in> set (get_nodes g)"
    and t: "node_type n \<noteq> FileNode \<and> CHR '':'' \<notin> set (node_name n)"
  let ?af = "second_pass fs directory files (first_pass fs directory files [])"
  from n obtain p where p: "p \<in> set files" "n \<in> set (fst (file_contribution fs directory ?af p))"
    by (auto simp: build_graph_eq(1)[OF g])
  from member_of_contribution[OF p(2)] t
  have a: "analysed fs directory p" and i: "node_id n = rel_name p @ ''::'' @ node_name n" by auto
  have pre: "id_prefix (node_id n) = rel_name p"
    using i t id_prefix_member by simp
  have "file_nodes_with_id g (rel_name p) = filter (\<lambda>f. node_id f = rel_name p) (file_nodes g)"
    by (simp add: conj_commute file_nodes_def file_nodes_with_id_def)
  also have "\<dots> = map (\<lambda>p. file_node (rel_name p) (content_of fs directory p) (file_path directory p))
                    (filter (\<lambda>q. rel_name q = rel_name p) (filter (analysed fs directory) files))"
    by (simp add: file_nodes_of_build_graph[OF g] filter_map comp_def file_node_def)
  finally have len: "length (file_nodes_with_id g (id_prefix (node_id n))) =
      length (filter (\<lambda>q. rel_name q = rel_name p) (filter (analysed fs directory) files))"
    using pre by simp
  show "1 \<le> length (file_nodes_with_id g (id_prefix (node_id n)))"
    unfolding len by (rule some_file_node[OF p(1) a])
  show "length (file_nodes_with_id g (id_prefix (node_id n))) = 1"
    if "distinct (map rel_name files)"
    unfolding len by (rule count_file_nodes[OF that p(1) a])
next
  fix e assume e: "e \<in> set (get_edges g)"
  let ?af = "second_pass fs directory files (first_pass fs directory files [])"
  from e obtain p where p: "p \<in> set files" "e \<in> set (snd (file_contribution fs directory ?af p))"
    by (auto simp: build_graph_eq(2)[OF g])
  from edge_of_contribution[OF p(2)] p(1)
  show "source e \<in> node_id ` set (get_nodes g)" and "target e \<in> node_id ` set (get_nodes g)"
    by (auto simp: build_graph_eq(1)[OF g])
qed

lemma clash_analysis: "analyze_directory clash_fs ''/clash'' clash_root = Inr clash_graph"
  unfolding clash_graph_def by code_simp

text \<open>
  C9, as the claim states it: in every graph that \<open>analyze_directory\<close> returns, the id
  prefix of every function or class node is the id of exactly one file node. This fails
  in \<open>/clash\<close>: the relative name of the file with the backslash becomes \<open>w/in.py\<close>,
  the relative name of the other file, so the graph holds two file nodes with that id,
  and the prefix of \<open>w/in.py::h\<close> is the id of both.
\<close>

theorem containment_with_backslash:
  "analyze_directory clash_fs ''/clash'' clash_root = Inr clash_graph \<and>
   map node_id (get_nodes clash_graph) = [''w/in.py'', ''w/in.py::f'', ''w/in.py'', ''w/in.py::h''] \<and>
   map node_type (get_nodes clash_graph) = [FileNode, FunctionNode, FileNode, FunctionNode] \<and>
   length (file_nodes_with_id clash_graph (id_prefix ''w/in.py::h'')) = 2"
  by code_simp

text \<open>
  C9, amended: in every graph that \<open>analyze_directory\<close> returns, the source and the
  target of every edge are ids of nodes of the graph, and the id prefix before \<open>::\<close> of
  every function or class node (whose name, an identifier, holds no colon) is the id of
  at least one file node of the graph; it is the id of exactly one file node when the
  kept files have pairwise different relative names, which they have unless a backslash
  in a file or directory name is turned into a slash that makes two of them equal.
\<close>

theorem containment_invariant:
  assumes "analyze_directory fs directory root = Inr g"
  shows "(\<forall>n \<in> set (get_nodes g). node_type n \<noteq> FileNode \<and> CHR '':'' \<notin> set (node_name n) \<longrightarrow>
            1 \<le> length (file_nodes_with_id g (id_prefix (node_id n))) \<and>
            (distinct (map rel_name (kept_files root)) \<longrightarrow>
               length (file_nodes_with_id g (id_prefix (node_id n))) = 1)) \<and>
         (\<forall>e \<in> set (get_edges g). source e \<in> node_id ` set (get_nodes g) \<and>
                                    target e \<in> node_id ` set (get_nodes g))"
proof (cases "list_files root")
  case (Inl e)
  with assms(1) have "g = empty_graph" by (simp add: analyze_directory_def)
  then show ?thesis by (simp add: empty_graph_def get_nodes_def get_edges_def)
next
  case (Inr files)
  have k: "kept_files root = snd (limit_files files)"
    using Inr by (simp add: kept_files_def)
  have "build_graph fs directory (kept_files root) = Inr g"
    using assms(1) Inr by (simp add: analyze_directory_def k)
  from build_graph_containment[OF this] show ?thesis .
qed

theorem containment_invariant_witness:
  "analyze_directory site_fs ''/site'' site_root = Inr site_graph \<and>
   distinct (map rel_name (kept_files site_root)) \<and>
   node_id (last (get_nodes site_graph)) = ''pkg/b.py::C'' \<and>
   node_type (last (get_nodes site_graph)) = ClassNode \<and>
   length (file_nodes_with_id site_graph (id_prefix ''pkg/b.py::C'')) = 1 \<and>
   source (last (get_edges site_graph)) \<in> node_id ` set (get_nodes site_graph) \<and>
   target (last (get_edges site_graph)) \<in> node_id ` set (get_nodes site_graph)"
proof -
  have d: "distinct (map rel_name (kept_files site_root))"
    by (simp add: kept_files_def site_listing limit_files_def rel_name_def)
  have n: "get_nodes site_graph \<noteq> [] \<and> get_edges site_graph \<noteq> [] \<and>
           node_type (last (get_nodes site_graph)) = ClassNode \<and>
           node_name (last (get_nodes site_graph)) = ''C'' \<and>
           node_id (last (get_nodes site_graph)) = ''pkg/b.py::C''"
    by code_simp
  then have m: "last (get_nodes site_graph) \<in> set (get_nodes site_graph)"
    and e: "last (get_edges site_graph) \<in> set (get_edges site_graph)"
    by simp_all
  note inv = containment_invariant[OF site_analysis]
  from inv have "node_type (last (get_nodes site_graph)) \<noteq> FileNode \<and>
        CHR '':'' \<notin> set (node_name (last (get_nodes site_graph))) \<longrightarrow>
        1 \<le> length (file_nodes_with_id site_graph (id_prefix (node_id (last (get_nodes site_graph))))) \<and>
        (distinct (map rel_name (kept_files site_root)) \<longrightarrow>
           length (file_nodes_with_id site_graph
                     (id_prefix (node_id (last (get_nodes site_graph))))) = 1)"
    using m by blast
  then have c: "length (file_nodes_with_id site_graph (id_prefix ''pkg/b.py::C'')) = 1"
    using n d by simp
  from inv e have "source (last (get_edges site_graph)) \<in> node_id ` set (get_nodes site_graph) \<and>
      target (last (get_edges site_graph)) \<in> node_id ` set (get_nodes site_graph)"
    by blast
  with c n d site_analysis show ?thesis by simp
qed

subsection \<open>The incremental merge\<close>

text \<open>What \<open>reanalyze_file\<close> does when the parse has content: it works with the base name.\<close>

lemma reanalyze_file_merge:
  assumes "parse_python_file fs fp = Inr (funcs, clss, content)" and "content \<noteq> []"
    and "base = (if nodes d = None \<or> edges d = None then empty_graph else d)"
  shows "get_nodes (reanalyze_file fs fp d) =
           filter (\<lambda>n. \<not> (node_file n = Some (basename fp) \<or> node_id n = basename fp))
             (get_nodes base) @
           [file_node (basename fp) content fp] @
           map (merged_function_node (basename fp) fp) funcs @
           map (class_node (basename fp) fp) clss"
    and "get_edges (reanalyze_file fs fp d) =
           filter (\<lambda>e. source e \<noteq> basename fp) (get_edges base) @
           map (\<lambda>func. member_edge (basename fp) (func_name func)) funcs @
           map (\<lambda>cls. member_edge (basename fp) (class_name cls)) clss"
  using assms
  by (auto simp: reanalyze_file_def Let_def merge_function_nodes_eq add_class_nodes_eq
        get_nodes_def get_edges_def empty_graph_def split: option.splits)

text \<open>
  C1: the merge removes the nodes and edges of the modified file, found by its
  root-relative name, and leaves every other file alone. The code takes the base name
  of the path instead: after \<open>/proj/sub/a.py\<close> is rewritten to hold \<open>f\<close> alone, the
  nodes \<open>sub/a.py\<close>, \<open>sub/a.py::f\<close> and the stale \<open>sub/a.py::g\<close> are all still there,
  the nodes of the other file \<open>a.py\<close> (\<open>a.py\<close> and \<open>a.py::h\<close>) are gone, and the fresh
  nodes carry the ids \<open>a.py\<close> and \<open>a.py::f\<close>.
\<close>

theorem reanalyze_file_nested_file:
  "map_sum id (map node_id \<circ> get_nodes) (analyze_directory proj_fs ''/proj'' proj_root) =
     Inr [''a.py'', ''a.py::h'', ''sub/a.py'', ''sub/a.py::f'', ''sub/a.py::g''] \<and>
   map_sum id (map node_id \<circ> get_nodes \<circ> reanalyze_file proj_fs_edited ''/proj/sub/a.py'')
     (analyze_directory proj_fs ''/proj'' proj_root) =
     Inr [''sub/a.py'', ''sub/a.py::f'', ''sub/a.py::g'', ''a.py'', ''a.py::f'']"
  by code_simp

subsection \<open>The returns of a function\<close>

lemma collect_returns_eq:
  assumes "\<forall>r \<in> set ns. kind r = Return True \<longrightarrow> has_text r"
  shows "collect_returns ns acc = acc @ map return_entry (filter is_return ns)"
  using assms
proof (induction ns arbitrary: acc)
  case Nil
  then show ?case by simp
next
  case (Cons n ns)
  then have ih: "\<And>acc. collect_returns ns acc = acc @ map return_entry (filter is_return ns)"
    by simp
  show ?case
  proof (cases "kind n")
    case (Return has_value)
    then have r: "is_return n" by (simp add: is_return_def)
    show ?thesis
    proof (cases has_value)
      case True
      with Return Cons.prems obtain s where s: "segment n = Some s" "s \<noteq> []"
        by (auto simp: has_text_def split: option.splits)
      then have "return_entry n = strip s"
        using Return True by (simp add: return_entry_def text_of_def)
      then show ?thesis using Return True r s by (simp add: ih)
    next
      case False
      then have "return_entry n = ''None''"
        using Return by (simp add: return_entry_def)
      then show ?thesis using Return False r by (simp add: ih)
    qed
  next
    case Module
    then have "\<not> is_return n" by (simp add: is_return_def)
    then show ?thesis using Module by (simp add: ih)
  next
    case (FunctionDef name lineno)
    then have "\<not> is_return n" by (simp add: is_return_def)
    then show ?thesis using FunctionDef by (simp add: ih)
  next
    case (ClassDef name)
    then have "\<not> is_return n" by (simp add: is_return_def)
    then show ?thesis using ClassDef by (simp add: ih)
  next
    case (Call f l)
    then have "\<not> is_return n" by (simp add: is_return_def)
    then show ?thesis using Call by (simp add: ih)
  next
    case OtherNode
    then have "\<not> is_return n" by (simp add: is_return_def)
    then show ?thesis using OtherNode by (simp add: ih)
  qed
qed

lemma collect_functions_eq:
  "collect_functions fp ns acc =
     acc @ map (\<lambda>n. \<lparr>func_name = (case kind n of FunctionDef name lineno \<Rightarrow> name | _ \<Rightarrow> []),
                      func_code = segment n,
                      func_returns = collect_returns (ast_walk n) [],
                      func_file = basename fp\<rparr>) (filter is_function_def ns)"
proof (induction ns arbitrary: acc)
  case Nil
  then show ?case by simp
next
  case (Cons n ns)
  show ?case
  proof (cases "is_function_def n")
    case True
    then obtain name lineno where "kind n = FunctionDef name lineno"
      by (auto simp: is_function_def_def split: node_kind.splits)
    then show ?thesis using True by (simp add: Cons.IH)
  next
    case False
    then have "collect_functions fp (n # ns) acc = collect_functions fp ns acc"
      by (cases "kind n") (simp_all add: is_function_def_def)
    then show ?thesis using False by (simp add: Cons.IH)
  qed
qed

text \<open>\<open>ast.walk\<close> yields the nodes below a node, each once, in its own order.\<close>

lemma mset_source_order:
  "mset (source_order n) = add_mset n (mset (concat (map source_order (children n))))"
  by (cases n) simp

lemma mset_walk_queue: "mset (walk_queue q) = mset (concat (map source_order q))"
proof (induction q rule: walk_queue.induct)
  case 1
  then show ?case by simp
next
  case (2 n todo)
  have "mset (walk_queue (n # todo)) = add_mset n (mset (walk_queue (todo @ children n)))"
    by simp
  also have "\<dots> = add_mset n (mset (concat (map source_order (todo @ children n))))"
    using 2 by simp
  also have "\<dots> = mset (source_order n) + mset (concat (map source_order todo))"
    by (subst mset_source_order) simp
  finally show ?case by simp
qed

lemma mset_ast_walk: "mset (ast_walk n) = mset (source_order n)"
  by (simp add: ast_walk_def mset_walk_queue del: walk_queue.simps)

text \<open>
  C2, as the claim states it: the returns sequence of every function holds the return
  statements in source order, and \<open><none>\<close> for a bare return. This fails for
  \<open>guard.py\<close>: the bare return is recorded as \<open>None\<close>, and it comes after
  \<open>return 2\<close>, which stands later in the source but higher in the tree.
\<close>

theorem returns_of_guard:
  "map func_returns (parsed_functions guard_fs ''/proj/guard.py'') = [[''return 2'', ''None'']] \<and>
   map spec_returns (filter is_function_def (ast_walk guard_tree)) = [[''<none>'', ''return 2'']] \<and>
   map func_returns (parsed_functions guard_fs ''/proj/guard.py'') \<noteq>
     map spec_returns (filter is_function_def (ast_walk guard_tree))"
  by code_simp

text \<open>
  C2, amended: for a parseable file, the function records correspond to the function
  definitions in the order of \<open>ast.walk\<close>, and the returns sequence of each holds one
  entry per return statement below the definition (those of nested definitions too), in
  the breadth-first order of \<open>ast.walk\<close>: the stripped source text of a return with a
  value, and the string \<open>None\<close> for a bare return. Every return statement with a
  value has a source text that is not empty.
\<close>

theorem returns_in_walk_order:
  assumes "fs fp = Source content tree"
    and "\<forall>fn \<in> set (ast_walk tree). is_function_def fn \<longrightarrow>
           (\<forall>r \<in> set (ast_walk fn). kind r = Return True \<longrightarrow> has_text r)"
  shows "map func_returns (parsed_functions fs fp) =
           map walk_returns (filter is_function_def (ast_walk tree)) \<and>
         (\<forall>fn. mset (walk_returns fn) =
                mset (map return_entry (filter is_return (source_order fn))))"
proof -
  have "parsed_functions fs fp = collect_functions fp (ast_walk tree) []"
    using assms(1) by (simp add: parsed_functions_def parse_python_file_def)
  then have "map func_returns (parsed_functions fs fp) =
             map (\<lambda>n. collect_returns (ast_walk n) []) (filter is_function_def (ast_walk tree))"
    by (simp add: collect_functions_eq comp_def)
  also have "\<dots> = map walk_returns (filter is_function_def (ast_walk tree))"
    using assms(2) by (auto simp: collect_returns_eq walk_returns_def)
  finally have "map func_returns (parsed_functions fs fp) =
                map walk_returns (filter is_function_def (ast_walk tree))" .
  moreover have "\<forall>fn. mset (walk_returns fn) =
                       mset (map return_entry (filter is_return (source_order fn)))"
    by (simp add: walk_returns_def mset_ast_walk)
  ultimately show ?thesis by simp
qed

theorem returns_in_walk_order_witness:
  "guard_fs ''/proj/guard.py'' = Source ''def f(x): ...'' guard_tree \<and>
   map func_returns (parsed_functions guard_fs ''/proj/guard.py'') =
     map walk_returns (filter is_function_def (ast_walk guard_tree)) \<and>
   map walk_returns (filter is_function_def (ast_walk guard_tree)) = [[''return 2'', ''None'']]"
proof -
  have 1: "guard_fs ''/proj/guard.py'' = Source ''def f(x): ...'' guard_tree"
    by (simp add: guard_fs_def)
  have 2: "\<forall>fn \<in> set (ast_walk guard_tree). is_function_def fn \<longrightarrow>
             (\<forall>r \<in> set (ast_walk fn). kind r = Return True \<longrightarrow> has_text r)"
    by code_simp
  have 3: "map walk_returns (filter is_function_def (ast_walk guard_tree)) =
           [[''return 2'', ''None'']]"
    by code_simp
  from returns_in_walk_order[where fs = guard_fs and fp = "''/proj/guard.py''", OF 1 2] 1 3
  show ?thesis by simp
qed

subsection \<open>The enclosing function of a call\<close>

lemma find_enclosing_eq:
  "find_enclosing xs l cur best =
     (if {k \<in> fst ` set xs. k \<le> l \<and> best < k} = {} then cur
      else map_of xs (Max {k \<in> fst ` set xs. k \<le> l \<and> best < k}))"
proof (induction xs arbitrary: cur best)
  case Nil
  then show ?case by simp
next
  case (Cons x xs)
  obtain k v where x: "x = (k, v)" by (cases x)
  define K where "K = {k' \<in> fst ` set (x # xs). k' \<le> l \<and> best < k'}"
  define K1 where "K1 = {k' \<in> fst ` set xs. k' \<le> l \<and> k < k'}"
  define K2 where "K2 = {k' \<in> fst ` set xs. k' \<le> l \<and> best < k'}"
  have fin: "finite K" "finite K1" "finite K2" by (simp_all add: K_def K1_def K2_def)
  have ih1: "find_enclosing xs l (Some v) k = (if K1 = {} then Some v else map_of xs (Max K1))"
    unfolding K1_def by (rule Cons.IH)
  have ih2: "find_enclosing xs l cur best = (if K2 = {} then cur else map_of xs (Max K2))"
    unfolding K2_def by (rule Cons.IH)
  have goal: "find_enclosing (x # xs) l cur best = (if K = {} then cur else map_of (x # xs) (Max K))"
  proof (cases "k \<le> l \<and> best < k")
    case True
    have kin: "k \<in> K" using True x by (simp add: K_def)
    then have kne: "K \<noteq> {}" by blast
    have step: "find_enclosing (x # xs) l cur best = find_enclosing xs l (Some v) k"
      using True x by simp
    have sub: "K1 \<subseteq> K" using True x by (auto simp: K_def K1_def)
    have low: "\<And>k'. k' \<in> K \<Longrightarrow> k' \<notin> K1 \<Longrightarrow> k' \<le> k" using x by (auto simp: K_def K1_def)
    show ?thesis
    proof (cases "K1 = {}")
      case True
      then have "\<And>k'. k' \<in> K \<Longrightarrow> k' \<le> k" using low by blast
      then have "Max K = k" using kin fin(1) by (meson Max_eqI)
      then have "map_of (x # xs) (Max K) = Some v" using x by simp
      then show ?thesis using step ih1 True kne by simp
    next
      case False
      then have m1: "Max K1 \<in> K1" using fin(2) Max_in by blast
      then have mk: "Max K1 \<in> K" using sub by blast
      have gt: "k < Max K1" using m1 by (simp add: K1_def)
      have "\<And>k'. k' \<in> K \<Longrightarrow> k' \<le> Max K1"
      proof -
        fix k' assume a: "k' \<in> K"
        show "k' \<le> Max K1"
        proof (cases "k' \<in> K1")
          case True
          then show ?thesis using fin(2) Max_ge by blast
        next
          case False
          from low[OF a this] gt show ?thesis by simp
        qed
      qed
      then have "Max K = Max K1" using mk fin(1) by (meson Max_eqI)
      moreover have "Max K1 \<noteq> k" using gt by simp
      ultimately have "map_of (x # xs) (Max K) = map_of xs (Max K1)" using x by simp
      then show ?thesis using step ih1 False kne by simp
    qed
  next
    case False
    have eq: "K = K2" using False x by (auto simp: K_def K2_def)
    have step: "find_enclosing (x # xs) l cur best = find_enclosing xs l cur best"
      using False x by auto
    show ?thesis
    proof (cases "K2 = {}")
      case True
      then show ?thesis using step ih2 eq by simp
    next
      case F: False
      then have "Max K2 \<in> K2" using fin(3) Max_in by blast
      then have "Max K2 \<noteq> k" using False by (auto simp: K2_def)
      then have "map_of (x # xs) (Max K2) = map_of xs (Max K2)" using x by simp
      then show ?thesis using step ih2 eq F by simp
    qed
  qed
  show ?case using goal unfolding K_def .
qed

lemma map_of_build_func_line_map:
  "map_of (build_func_line_map ns m) = map_of (rev (function_defs ns) @ m)"
proof (induction ns arbitrary: m)
  case Nil
  then show ?case by (simp add: function_defs_def)
next
  case (Cons n ns)
  show ?case
  proof (cases "kind n")
    case (FunctionDef name lineno)
    then have "def_entry n = [(lineno, name)]" by (simp add: def_entry_def)
    then have "function_defs (n # ns) = (lineno, name) # function_defs ns"
      by (simp add: function_defs_def)
    moreover have "map_of (rev (function_defs ns) @ AList.update lineno name m) =
                   map_of (rev (function_defs ns) @ (lineno, name) # m)"
      by (simp add: map_of_append update_conv')
    ultimately show ?thesis using FunctionDef Cons.IH by simp
  qed (simp_all add: Cons.IH function_defs_def def_entry_def)
qed

lemma map_of_rev_last:
  "k \<in> fst ` set xs \<Longrightarrow> map_of (rev xs) k = Some (snd (last (filter (\<lambda>d. fst d = k) xs)))"
proof (induction xs rule: rev_induct)
  case Nil
  then show ?case by simp
next
  case (snoc x xs)
  show ?case
  proof (cases "fst x = k")
    case True
    then show ?thesis by (cases x) simp
  next
    case False
    then have "k \<in> fst ` set xs" using snoc.prems by auto
    from snoc.IH[OF this] False show ?thesis by (cases x) simp
  qed
qed

lemma enclosing_is_nearest:
  "find_enclosing (build_func_line_map ns []) l None 0 = nearest_preceding_def (function_defs ns) l"
proof -
  define defs where "defs = function_defs ns"
  define flm where "flm = build_func_line_map ns []"
  define cands where "cands = filter (\<lambda>d. 0 < fst d \<and> fst d \<le> l) defs"
  define K where "K = set (map fst cands)"
  have mo: "map_of flm = map_of (rev defs)"
    using map_of_build_func_line_map[of ns "[]"] by (simp add: flm_def defs_def)
  have "fst ` set flm = dom (map_of flm)" by (simp add: dom_map_of_conv_image_fst)
  also have "\<dots> = fst ` set defs" by (simp add: mo dom_map_of_conv_image_fst)
  finally have keys: "fst ` set flm = fst ` set defs" .
  have K: "{k \<in> fst ` set flm. k \<le> l \<and> 0 < k} = K"
    unfolding keys by (auto simp: K_def cands_def)
  have e: "find_enclosing flm l None 0 = (if K = {} then None else map_of (rev defs) (Max K))"
    using find_enclosing_eq[of flm l None 0] unfolding K mo .
  have n: "nearest_preceding_def defs l =
           (if cands = [] then None else Some (snd (last (filter (\<lambda>d. fst d = Max K) cands))))"
    by (simp add: nearest_preceding_def_def Let_def cands_def K_def)
  have emp: "(K = {}) = (cands = [])" by (simp add: K_def)
  have "find_enclosing flm l None 0 = nearest_preceding_def defs l"
  proof (cases "cands = []")
    case True
    then show ?thesis using e n emp by simp
  next
    case False
    then have "K \<noteq> {}" using emp by simp
    moreover have "finite K" by (simp add: K_def)
    ultimately have m: "Max K \<in> K" using Max_in by blast
    then have c: "0 < Max K \<and> Max K \<le> l" and d: "Max K \<in> fst ` set defs"
      by (auto simp: K_def cands_def)
    have "map_of (rev defs) (Max K) = Some (snd (last (filter (\<lambda>d. fst d = Max K) defs)))"
      using d by (rule map_of_rev_last)
    moreover have "filter (\<lambda>d. fst d = Max K) cands = filter (\<lambda>d. fst d = Max K) defs"
      unfolding cands_def using c by (auto intro!: filter_cong)
    ultimately show ?thesis using e n False \<open>K \<noteq> {}\<close> by simp
  qed
  then show ?thesis by (simp add: flm_def defs_def)
qed

lemma nearest_preceding_def_in:
  assumes "nearest_preceding_def defs l = Some cf"
  shows "cf \<in> snd ` set defs"
proof -
  define cands where "cands = filter (\<lambda>d. 0 < fst d \<and> fst d \<le> l) defs"
  define M where "M = Max (set (map fst cands))"
  from assms have ne: "cands \<noteq> []" and cf: "cf = snd (last (filter (\<lambda>d. fst d = M) cands))"
    by (auto simp: nearest_preceding_def_def Let_def cands_def M_def split: if_splits)
  have "set (map fst cands) \<noteq> {}" using ne by simp
  then have "M \<in> set (map fst cands)" unfolding M_def by (intro Max_in) simp_all
  then have "filter (\<lambda>d. fst d = M) cands \<noteq> []"
    by (auto simp: filter_empty_conv)
  then have "last (filter (\<lambda>d. fst d = M) cands) \<in> set (filter (\<lambda>d. fst d = M) cands)"
    by (rule last_in_set)
  then have "last (filter (\<lambda>d. fst d = M) cands) \<in> set defs" by (auto simp: cands_def)
  then show ?thesis using cf by blast
qed

subsection \<open>The call-scanning loops in closed form\<close>

lemma note_calls_simps:
  "note_calls [] e = e"
  "note_calls cs2 (note_calls cs1 e) = note_calls (cs1 @ cs2) e"
  "func_name (note_calls cs e) = func_name e"
  "func_called_by (note_calls cs e) = foldl add_unique (func_called_by e) cs"
  by (simp_all add: note_calls_def)

lemma record_call_eq:
  "record_call ids rel flm fname l item =
     (fst item, note_calls (if func_name (snd item) = fname then caller_of ids rel flm l else [])
                  (snd item))"
  by (cases item)
     (auto simp: record_call_def caller_of_def note_calls_def add_unique_def Let_def
        split: option.splits)

lemma map_fst_note:
  "map fst (map (\<lambda>item. (fst item, g item)) af) = map fst af"
  by (induction af) auto

lemma scan_calls_eq:
  "scan_calls rel flm ns af =
     map (\<lambda>item. (fst item,
            note_calls (scan_events (map fst af) rel flm (func_name (snd item)) ns) (snd item))) af"
proof (induction ns arbitrary: af)
  case Nil
  then show ?case by (simp add: scan_events_def note_calls_simps)
next
  case (Cons n ns)
  have ev: "\<And>nm. scan_events (map fst af) rel flm nm (n # ns) =
            call_event (map fst af) rel flm nm n @ scan_events (map fst af) rel flm nm ns"
    by (simp add: scan_events_def)
  show ?case
  proof (cases "\<exists>f l fname. kind n = Call f l \<and> called_name f = Some fname \<and> fname \<noteq> []")
    case True
    then obtain f l fname where c: "kind n = Call f l" "called_name f = Some fname" "fname \<noteq> []"
      by blast
    let ?af' = "map (record_call (map fst af) rel flm fname l) af"
    have ids: "map fst ?af' = map fst af"
      by (simp add: record_call_eq comp_def)
    have ce: "\<And>nm. call_event (map fst af) rel flm nm n =
                (if nm = fname then caller_of (map fst af) rel flm l else [])"
      using c by (auto simp: call_event_def)
    have "scan_calls rel flm (n # ns) af = scan_calls rel flm ns ?af'"
      using c by simp
    also have "\<dots> = map (\<lambda>item. (fst item,
            note_calls (scan_events (map fst af) rel flm (func_name (snd item)) ns) (snd item))) ?af'"
      by (simp only: Cons.IH ids)
    also have "\<dots> = map (\<lambda>item. (fst item,
            note_calls (scan_events (map fst af) rel flm (func_name (snd item)) (n # ns)) (snd item))) af"
      by (simp add: record_call_eq note_calls_simps ev ce comp_def)
    finally show ?thesis .
  next
    case False
    then have ce: "\<And>nm. call_event (map fst af) rel flm nm n = []"
      by (auto simp: call_event_def split: node_kind.splits option.splits)
    have "scan_calls rel flm (n # ns) af = scan_calls rel flm ns af"
      using False by (auto split: node_kind.splits option.splits)
    then show ?thesis by (simp add: Cons.IH ev ce)
  qed
qed

lemma second_pass_eq:
  "second_pass fs directory files af =
     map (\<lambda>item. (fst item,
            note_calls (pass_events fs directory (map fst af) (func_name (snd item)) files)
              (snd item))) af"
proof (induction files arbitrary: af)
  case Nil
  then show ?case by (simp add: pass_events_def note_calls_simps)
next
  case (Cons p files)
  show ?case
  proof (cases "fs (file_path directory p)")
    case (Raises e)
    then show ?thesis by (simp add: Cons.IH pass_events_def)
  next
    case (Source content tree)
    let ?flm = "build_func_line_map (ast_walk tree) []"
    let ?af' = "scan_calls (rel_name p) ?flm (ast_walk tree) af"
    have ids: "map fst ?af' = map fst af"
      by (simp add: scan_calls_eq comp_def)
    have pe: "\<And>nm. pass_events fs directory (map fst af) nm (p # files) =
               scan_events (map fst af) (rel_name p) ?flm nm (ast_walk tree) @
               pass_events fs directory (map fst af) nm files"
      using Source by (simp add: pass_events_def)
    have "second_pass fs directory (p # files) af = second_pass fs directory files ?af'"
      using Source by simp
    also have "\<dots> = map (\<lambda>item. (fst item,
            note_calls (pass_events fs directory (map fst af) (func_name (snd item)) files)
              (snd item))) ?af'"
      by (simp only: Cons.IH ids)
    also have "\<dots> = map (\<lambda>item. (fst item,
            note_calls (pass_events fs directory (map fst af) (func_name (snd item)) (p # files))
              (snd item))) af"
      by (simp add: scan_calls_eq note_calls_simps pe comp_def)
    finally show ?thesis .
  qed
qed

lemma map_of_map_entries:
  "map_of (map (\<lambda>item. (fst item, g (snd item))) af) k = map_option g (map_of af k)"
  by (induction af) auto

lemma map_of_second_pass:
  "map_of (second_pass fs directory files af) k =
     map_option (\<lambda>e. note_calls (pass_events fs directory (map fst af) (func_name e) files) e)
       (map_of af k)"
  unfolding second_pass_eq[of fs directory files af]
  by (rule map_of_map_entries)

lemma foldl_add_unique: "foldl add_unique [] xs = first_seen xs"
proof (induction xs rule: rev_induct)
  case Nil
  then show ?case by (simp add: first_seen_def)
next
  case (snoc x xs)
  have "set (first_seen xs) = set xs" by (simp add: first_seen_def)
  then show ?case using snoc by (simp add: add_unique_def first_seen_def)
qed

subsection \<open>What the first loop stores\<close>

lemma collect_functions_names:
  "map func_name (collect_functions fp ns acc) = map func_name acc @ map snd (function_defs ns)"
proof (induction ns arbitrary: acc)
  case Nil
  then show ?case by (simp add: function_defs_def)
next
  case (Cons n ns)
  show ?case
    by (cases "kind n") (simp_all add: Cons.IH function_defs_def def_entry_def)
qed

lemma parsed_source:
  assumes "fs fp = Source content tree"
  shows "\<exists>funcs clss. parse_python_file fs fp = Inr (funcs, clss, content) \<and>
           map func_name funcs = map snd (function_defs (ast_walk tree))"
  using assms by (simp add: parse_python_file_def collect_functions_names)

lemma register_functions_entry:
  "map_of (register_functions rel funcs af) k = Some e \<Longrightarrow>
   map_of af k = Some e \<or>
   (func_called_by e = [] \<and> func_name e \<in> func_name ` set funcs \<and> k = rel @ ''::'' @ func_name e)"
proof (induction funcs arbitrary: af)
  case Nil
  then show ?case by simp
next
  case (Cons f funcs)
  let ?af' = "AList.update (rel @ ''::'' @ func_name f)
          \<lparr>func_name = func_name f, func_code = func_code f,
           func_returns = func_returns f, func_file = rel, func_called_by = []\<rparr> af"
  from Cons.prems have "map_of (register_functions rel funcs ?af') k = Some e" by simp
  from Cons.IH[OF this] show ?case
    by (auto simp: update_conv' split: if_splits)
qed

lemma register_functions_dom:
  "dom (map_of (register_functions rel funcs af)) =
   dom (map_of af) \<union> (\<lambda>f. rel @ ''::'' @ func_name f) ` set funcs"
  by (induction funcs arbitrary: af) (auto simp: update_conv')

lemma first_pass_entry:
  "map_of (first_pass fs directory files af) k = Some e \<Longrightarrow>
   map_of af k = Some e \<or>
   (func_called_by e = [] \<and>
    (\<exists>p \<in> set files. \<exists>content tree. fs (file_path directory p) = Source content tree \<and>
        func_name e \<in> snd ` set (function_defs (ast_walk tree)) \<and>
        k = rel_name p @ ''::'' @ func_name e))"
proof (induction files arbitrary: af)
  case Nil
  then show ?case by simp
next
  case (Cons p files)
  let ?Q = "\<lambda>fl. func_called_by e = [] \<and>
    (\<exists>p \<in> set fl. \<exists>content tree. fs (file_path directory p) = Source content tree \<and>
        func_name e \<in> snd ` set (function_defs (ast_walk tree)) \<and>
        k = rel_name p @ ''::'' @ func_name e)"
  have lift: "?Q files \<Longrightarrow> ?Q (p # files)" by fastforce
  have skip: "first_pass fs directory (p # files) af = first_pass fs directory files af \<Longrightarrow>
              map_of af k = Some e \<or> ?Q (p # files)"
  proof -
    assume "first_pass fs directory (p # files) af = first_pass fs directory files af"
    with Cons.prems have "map_of (first_pass fs directory files af) k = Some e" by simp
    from Cons.IH[OF this] lift show ?thesis by blast
  qed
  show ?case
  proof (cases "fs (file_path directory p)")
    case (Raises x)
    then have "first_pass fs directory (p # files) af = first_pass fs directory files af"
      by (simp add: parse_python_file_def)
    then show ?thesis by (rule skip)
  next
    case (Source content tree)
    from parsed_source[where fs = fs and fp = "file_path directory p", OF this]
    obtain funcs clss where
      pr: "parse_python_file fs (file_path directory p) = Inr (funcs, clss, content)"
      and nm: "map func_name funcs = map snd (function_defs (ast_walk tree))" by blast
    have nms: "func_name ` set funcs = snd ` set (function_defs (ast_walk tree))"
      using nm by (metis list.set_map)
    show ?thesis
    proof (cases "content = []")
      case True
      then have "first_pass fs directory (p # files) af = first_pass fs directory files af"
        using pr by simp
      then show ?thesis by (rule skip)
    next
      case False
      let ?af' = "register_functions (rel_name p) funcs af"
      have "first_pass fs directory (p # files) af = first_pass fs directory files ?af'"
        using pr False by simp
      with Cons.prems have "map_of (first_pass fs directory files ?af') k = Some e" by simp
      from Cons.IH[OF this] show ?thesis
      proof
        assume "map_of ?af' k = Some e"
        from register_functions_entry[OF this]
        show ?thesis
        proof
          assume "map_of af k = Some e"
          then show ?thesis by simp
        next
          assume a: "func_called_by e = [] \<and> func_name e \<in> func_name ` set funcs \<and>
                     k = rel_name p @ ''::'' @ func_name e"
          then have "func_name e \<in> snd ` set (function_defs (ast_walk tree))"
            using nms by simp
          with a Source have "?Q (p # files)" by auto
          then show ?thesis by simp
        qed
      next
        assume "?Q files"
        from lift[OF this] show ?thesis by simp
      qed
    qed
  qed
qed

lemma first_pass_dom_mono:
  "dom (map_of af) \<subseteq> dom (map_of (first_pass fs directory files af))"
proof (induction files arbitrary: af)
  case Nil
  then show ?case by simp
next
  case (Cons p files)
  show ?case
  proof (cases "parse_python_file fs (file_path directory p)")
    case (Inl e)
    then show ?thesis using Cons.IH[of af] by simp
  next
    case (Inr r)
    obtain funcs clss content where r: "r = (funcs, clss, content)" by (cases r)
    show ?thesis
    proof (cases "content = []")
      case True
      then show ?thesis using Inr r Cons.IH[of af] by simp
    next
      case False
      have "dom (map_of af) \<subseteq> dom (map_of (register_functions (rel_name p) funcs af))"
        by (simp add: register_functions_dom)
      also have "\<dots> \<subseteq> dom (map_of (first_pass fs directory files
                           (register_functions (rel_name p) funcs af)))"
        by (rule Cons.IH)
      finally show ?thesis using Inr r False by simp
    qed
  qed
qed

lemma first_pass_registers:
  assumes "p \<in> set files" and "fs (file_path directory p) = Source content tree"
    and "content \<noteq> []" and "name \<in> snd ` set (function_defs (ast_walk tree))"
  shows "rel_name p @ ''::'' @ name \<in> dom (map_of (first_pass fs directory files af))"
  using assms(1)
proof (induction files arbitrary: af)
  case Nil
  then show ?case by simp
next
  case (Cons q files)
  show ?case
  proof (cases "q = p")
    case True
    from parsed_source[where fs = fs and fp = "file_path directory p", OF assms(2)]
    obtain funcs clss where
      pr: "parse_python_file fs (file_path directory p) = Inr (funcs, clss, content)"
      and nm: "map func_name funcs = map snd (function_defs (ast_walk tree))" by blast
    have "func_name ` set funcs = snd ` set (function_defs (ast_walk tree))"
      using nm by (metis list.set_map)
    then have "name \<in> func_name ` set funcs" using assms(4) by simp
    then obtain f where "f \<in> set funcs" "func_name f = name" by (auto simp: image_iff)
    then have "rel_name p @ ''::'' @ name \<in> dom (map_of (register_functions (rel_name p) funcs af))"
      by (auto simp: register_functions_dom)
    then have "rel_name p @ ''::'' @ name \<in>
       dom (map_of (first_pass fs directory files (register_functions (rel_name p) funcs af)))"
      using first_pass_dom_mono by blast
    then show ?thesis using True pr assms(3) by simp
  next
    case False
    then have "p \<in> set files" using Cons.prems by simp
    then have "\<And>af. rel_name p @ ''::'' @ name \<in> dom (map_of (first_pass fs directory files af))"
      by (rule Cons.IH)
    then show ?thesis
      by (cases "parse_python_file fs (file_path directory q)") (auto split: prod.splits)
  qed
qed

subsection \<open>Call resolution\<close>

lemma member_name_cancel:
  assumes "a @ ''::'' @ x = b @ ''::'' @ y" and "CHR '':'' \<notin> set x" and "CHR '':'' \<notin> set y"
  shows "x = y"
proof -
  have "id_prefix (a @ ''::'' @ x) = a" "id_prefix (b @ ''::'' @ y) = b"
    by (rule id_prefix_member, fact)+
  then have "a = b" using assms(1) by simp
  then show ?thesis using assms(1) by simp
qed

lemma wellformed_names:
  assumes "wellformed_source fs directory p" and "fs (file_path directory p) = Source content tree"
    and "name \<in> snd ` set (function_defs (ast_walk tree))"
  shows "name \<noteq> [] \<and> CHR '':'' \<notin> set name"
proof -
  from assms(3) obtain d where d: "d \<in> set (function_defs (ast_walk tree))" "name = snd d"
    by blast
  from assms(1,2) have "\<forall>d \<in> set (function_defs (ast_walk tree)).
      snd d \<noteq> [] \<and> CHR '':'' \<notin> set (snd d)"
    by (simp add: wellformed_source_def)
  from bspec[OF this d(1)] show ?thesis by (simp add: d(2))
qed

lemma concat_map_concat:
  "concat (map g (concat (map h ns))) = concat (map (\<lambda>n. concat (map g (h n))) ns)"
  by (induction ns) auto

lemma file_events:
  assumes p: "p \<in> set files" and src: "fs (file_path directory p) = Source content tree"
    and wf: "wellformed_source fs directory p"
    and name: "name \<noteq> []"
    and ids: "set ids = dom (map_of (first_pass fs directory files []))"
  shows "scan_events ids (rel_name p) (build_func_line_map (ast_walk tree) []) name (ast_walk tree) =
         concat (map (site_caller (rel_name p) (function_defs (ast_walk tree)) name)
                   (call_sites (ast_walk tree)))"
proof (cases "content = []")
  case True
  then have "children tree = []" and "kind tree = Module"
    using wf src by (simp_all add: wellformed_source_def)
  then have "ast_walk tree = [tree]" and "call_event ids (rel_name p)
       (build_func_line_map (ast_walk tree) []) name tree = []" and "call_entry tree = []"
    by (simp_all add: ast_walk_leaf call_event_def call_entry_def)
  then show ?thesis by (simp add: scan_events_def call_sites_def)
next
  case False
  define defs where "defs = function_defs (ast_walk tree)"
  define flm where "flm = build_func_line_map (ast_walk tree) []"
  have idn: "\<And>cf. cf \<in> snd ` set defs \<Longrightarrow> cf \<noteq> [] \<and> rel_name p @ ''::'' @ cf \<in> set ids"
  proof -
    fix cf assume cf: "cf \<in> snd ` set defs"
    then have cf': "cf \<in> snd ` set (function_defs (ast_walk tree))" by (simp add: defs_def)
    have "cf \<noteq> []"
      using wellformed_names[where fs = fs and directory = directory and p = p, OF wf src cf']
      by simp
    moreover have "rel_name p @ ''::'' @ cf \<in> set ids"
      unfolding ids
      by (rule first_pass_registers[where fs = fs and directory = directory, OF p src False cf'])
    ultimately show "cf \<noteq> [] \<and> rel_name p @ ''::'' @ cf \<in> set ids" by simp
  qed
  have caller: "\<And>l. caller_of ids (rel_name p) flm l =
                  (case nearest_preceding_def defs l of
                     Some cf \<Rightarrow> [rel_name p @ ''::'' @ cf] | None \<Rightarrow> [])"
  proof -
    fix l
    have e: "find_enclosing flm l None 0 = nearest_preceding_def defs l"
      unfolding flm_def defs_def by (rule enclosing_is_nearest)
    show "caller_of ids (rel_name p) flm l =
          (case nearest_preceding_def defs l of
             Some cf \<Rightarrow> [rel_name p @ ''::'' @ cf] | None \<Rightarrow> [])"
    proof (cases "nearest_preceding_def defs l")
      case None
      then show ?thesis using e by (simp add: caller_of_def)
    next
      case (Some cf)
      from nearest_preceding_def_in[OF this] idn have "cf \<noteq> [] \<and> rel_name p @ ''::'' @ cf \<in> set ids"
        by blast
      then show ?thesis using e Some by (simp add: caller_of_def)
    qed
  qed
  have node: "\<And>n. call_event ids (rel_name p) flm name n =
                concat (map (site_caller (rel_name p) defs name) (call_entry n))"
  proof -
    fix n
    show "call_event ids (rel_name p) flm name n =
          concat (map (site_caller (rel_name p) defs name) (call_entry n))"
    proof (cases "\<exists>f l fname. kind n = Call f l \<and> called_name f = Some fname")
      case True
      then obtain f l fname where c: "kind n = Call f l" "called_name f = Some fname" by blast
      then show ?thesis using name caller[of l]
        by (auto simp: call_event_def call_entry_def site_caller_def)
    next
      case False
      then show ?thesis
        by (auto simp: call_event_def call_entry_def split: node_kind.splits option.splits)
    qed
  qed
  have m: "map (call_event ids (rel_name p) flm name) (ast_walk tree) =
        map (\<lambda>n. concat (map (site_caller (rel_name p) defs name) (call_entry n))) (ast_walk tree)"
    by (rule map_cong) (simp_all add: node)
  have "scan_events ids (rel_name p) flm name (ast_walk tree) =
        concat (map (\<lambda>n. concat (map (site_caller (rel_name p) defs name) (call_entry n)))
                  (ast_walk tree))"
    unfolding scan_events_def by (simp only: m)
  also have "\<dots> = concat (map (site_caller (rel_name p) defs name) (call_sites (ast_walk tree)))"
    unfolding call_sites_def concat_map_concat ..
  finally show ?thesis unfolding flm_def defs_def .
qed

lemma pass_events_eq:
  assumes wf: "\<forall>p \<in> set files. wellformed_source fs directory p"
    and name: "name \<noteq> []"
    and ids: "set ids = dom (map_of (first_pass fs directory files []))"
  shows "pass_events fs directory ids name files = attributed_callers fs directory files name"
proof -
  have "\<And>p. p \<in> set files \<Longrightarrow>
          (case fs (file_path directory p) of
             Raises e \<Rightarrow> []
           | Source content tree \<Rightarrow>
               scan_events ids (rel_name p) (build_func_line_map (ast_walk tree) []) name
                 (ast_walk tree)) =
          callers_in_file fs directory name p"
  proof -
    fix p assume p: "p \<in> set files"
    show "(case fs (file_path directory p) of
             Raises e \<Rightarrow> []
           | Source content tree \<Rightarrow>
               scan_events ids (rel_name p) (build_func_line_map (ast_walk tree) []) name
                 (ast_walk tree)) =
          callers_in_file fs directory name p"
    proof (cases "fs (file_path directory p)")
      case (Raises e)
      then show ?thesis by (simp add: callers_in_file_def)
    next
      case (Source content tree)
      from file_events[OF p Source _ name ids] wf p Source show ?thesis
        by (simp add: callers_in_file_def)
    qed
  qed
  then show ?thesis
    unfolding pass_events_def attributed_callers_def by (intro arg_cong[where f = concat] map_cong) simp_all
qed

lemma function_node_of_contribution:
  assumes "n \<in> set (fst (file_contribution fs directory af p))" and "node_type n = FunctionNode"
  shows "\<exists>content tree. fs (file_path directory p) = Source content tree \<and> content \<noteq> [] \<and>
           node_name n \<in> snd ` set (function_defs (ast_walk tree)) \<and>
           node_called_by n = Some (case map_of af (rel_name p @ ''::'' @ node_name n) of
                                      Some func_data \<Rightarrow> func_called_by func_data | None \<Rightarrow> [])"
proof -
  from assms(1) obtain content tree where src: "fs (file_path directory p) = Source content tree"
    and ne: "content \<noteq> []"
    by (auto simp: file_contribution_def parse_python_file_def split: file_result.splits if_splits)
  from parsed_source[where fs = fs and fp = "file_path directory p", OF src]
  obtain funcs clss where
    pr: "parse_python_file fs (file_path directory p) = Inr (funcs, clss, content)"
    and nm: "map func_name funcs = map snd (function_defs (ast_walk tree))" by blast
  have nms: "func_name ` set funcs = snd ` set (function_defs (ast_walk tree))"
    using nm by (metis list.set_map)
  from assms pr ne obtain f where f: "f \<in> set funcs"
    and n: "n = function_node (rel_name p) (file_path directory p) af f"
    by (auto simp: file_contribution_def file_node_def class_node_def)
  have "node_name n = func_name f" using n by (simp add: function_node_def Let_def)
  moreover have "node_called_by n = Some (case map_of af (rel_name p @ ''::'' @ func_name f) of
                                      Some func_data \<Rightarrow> func_called_by func_data | None \<Rightarrow> [])"
    using n by (simp add: function_node_def Let_def)
  ultimately show ?thesis using src ne f nms by auto
qed

lemma build_graph_called_by:
  assumes g: "build_graph fs directory files = Inr g"
    and wf: "\<forall>p \<in> set files. wellformed_source fs directory p"
    and n: "n \<in> set (get_nodes g)" and t: "node_type n = FunctionNode"
  shows "node_called_by n = Some (first_seen (attributed_callers fs directory files (node_name n)))"
proof -
  define af1 where "af1 = first_pass fs directory files []"
  define af2 where "af2 = second_pass fs directory files af1"
  from n obtain p where p: "p \<in> set files" "n \<in> set (fst (file_contribution fs directory af2 p))"
    by (auto simp: build_graph_eq(1)[OF g] af2_def af1_def)
  from function_node_of_contribution[OF p(2) t] obtain content tree where
    src: "fs (file_path directory p) = Source content tree" and ne: "content \<noteq> []"
    and nm: "node_name n \<in> snd ` set (function_defs (ast_walk tree))"
    and cb: "node_called_by n = Some (case map_of af2 (rel_name p @ ''::'' @ node_name n) of
                                      Some func_data \<Rightarrow> func_called_by func_data | None \<Rightarrow> [])"
    by blast
  have ident: "node_name n \<noteq> [] \<and> CHR '':'' \<notin> set (node_name n)"
    using wellformed_names[where fs = fs and directory = directory and p = p, OF _ src nm]
      wf p(1) by blast
  let ?k = "rel_name p @ ''::'' @ node_name n"
  have "?k \<in> dom (map_of af1)"
    unfolding af1_def
    by (rule first_pass_registers[where fs = fs and directory = directory, OF p(1) src ne nm])
  then obtain e where e: "map_of af1 ?k = Some e" by blast
  from first_pass_entry[OF e[unfolded af1_def]] obtain q content' tree' where
    fresh: "func_called_by e = []" and q: "q \<in> set files"
    and qsrc: "fs (file_path directory q) = Source content' tree'"
    and qnm: "func_name e \<in> snd ` set (function_defs (ast_walk tree'))"
    and k: "?k = rel_name q @ ''::'' @ func_name e"
    by auto
  have "CHR '':'' \<notin> set (func_name e)"
    using wellformed_names[where fs = fs and directory = directory and p = q, OF _ qsrc qnm]
      wf q by blast
  from member_name_cancel[OF k _ this] ident have same: "func_name e = node_name n" by simp
  have "map_of af2 ?k =
        Some (note_calls (pass_events fs directory (map fst af1) (func_name e) files) e)"
    unfolding af2_def using e by (simp add: map_of_second_pass)
  then have "node_called_by n =
             Some (foldl add_unique [] (pass_events fs directory (map fst af1) (node_name n) files))"
    using cb fresh same by (simp add: note_calls_simps)
  moreover have "pass_events fs directory (map fst af1) (node_name n) files =
                 attributed_callers fs directory files (node_name n)"
  proof (rule pass_events_eq[OF wf])
    show "node_name n \<noteq> []" using ident by simp
    show "set (map fst af1) = dom (map_of (first_pass fs directory files []))"
      by (simp add: af1_def dom_map_of_conv_image_fst)
  qed
  ultimately show ?thesis by (simp add: foldl_add_unique)
qed

lemma nearest_preceding_def_greatest:
  assumes "nearest_preceding_def defs l = Some cf"
  shows "\<exists>ln. (ln, cf) \<in> set defs \<and> 0 < ln \<and> ln \<le> l \<and>
              (\<forall>d \<in> set defs. 0 < fst d \<and> fst d \<le> l \<longrightarrow> fst d \<le> ln)"
proof -
  define cands where "cands = filter (\<lambda>d. 0 < fst d \<and> fst d \<le> l) defs"
  define M where "M = Max (set (map fst cands))"
  from assms have ne: "cands \<noteq> []" and cf: "cf = snd (last (filter (\<lambda>d. fst d = M) cands))"
    by (auto simp: nearest_preceding_def_def Let_def cands_def M_def split: if_splits)
  have "set (map fst cands) \<noteq> {}" using ne by simp
  then have M: "M \<in> set (map fst cands)" unfolding M_def by (intro Max_in) simp_all
  then have "filter (\<lambda>d. fst d = M) cands \<noteq> []"
    by (auto simp: filter_empty_conv)
  then have "last (filter (\<lambda>d. fst d = M) cands) \<in> set (filter (\<lambda>d. fst d = M) cands)"
    by (rule last_in_set)
  then obtain d where d: "d = last (filter (\<lambda>d. fst d = M) cands)" "d \<in> set defs" "fst d = M"
    by (auto simp: cands_def)
  then have "(M, cf) \<in> set defs" using cf by (metis prod.collapse)
  moreover have "0 < M \<and> M \<le> l" using M by (auto simp: cands_def)
  moreover have "\<forall>d \<in> set defs. 0 < fst d \<and> fst d \<le> l \<longrightarrow> fst d \<le> M"
  proof (intro ballI impI)
    fix d assume "d \<in> set defs" and "0 < fst d \<and> fst d \<le> l"
    then have "fst d \<in> set (map fst cands)" by (simp add: cands_def)
    then show "fst d \<le> M" unfolding M_def by (intro Max_ge) simp_all
  qed
  ultimately show ?thesis by blast
qed

lemma link_listing: "list_files link_root = Inr [[''b.py''], [''a.py'']]"
  by (simp add: list_files_def link_root_def endswith_def)

lemma link_analysis: "analyze_directory link_fs ''/link'' link_root = Inr link_graph"
  unfolding link_graph_def by code_simp

text \<open>
  C5: in the graph of a full build, the \<open>called_by\<close> of every function node is the
  sequence of the callers attributed to its name, duplicates suppressed and the order of
  first occurrence kept: for each analysed file in turn and each call expression of that
  name in it, in the order of \<open>ast.walk\<close>, the node id of the function of that file whose
  definition starts on the greatest line at or before the line of the call. The code's
  search for the enclosing function is that nearest preceding definition. (The trees
  are what \<open>ast.parse\<close> returns: names of definitions are identifiers, the tree of an
  empty content is the empty module.)
\<close>

theorem call_resolution:
  assumes "list_files root = Inr files" and "analyze_directory fs directory root = Inr g"
    and "\<forall>p \<in> set files. wellformed_source fs directory p"
  shows "(\<forall>n \<in> set (get_nodes g). node_type n = FunctionNode \<longrightarrow>
            node_called_by n =
              Some (first_seen (attributed_callers fs directory (take 50 files) (node_name n)))) \<and>
         (\<forall>tree l. find_enclosing (build_func_line_map (ast_walk tree) []) l None 0 =
                    nearest_preceding_def (function_defs (ast_walk tree)) l)"
proof -
  have g: "build_graph fs directory (take 50 files) = Inr g"
    using assms(1,2) by (simp add: analyze_directory_def limit_files_snd)
  have wf: "\<forall>p \<in> set (take 50 files). wellformed_source fs directory p"
    using assms(3) by (meson in_set_takeD)
  have "\<forall>n \<in> set (get_nodes g). node_type n = FunctionNode \<longrightarrow>
          node_called_by n =
            Some (first_seen (attributed_callers fs directory (take 50 files) (node_name n)))"
    using build_graph_called_by[OF g wf] by blast
  then show ?thesis by (simp add: enclosing_is_nearest)
qed

theorem call_resolution_witness:
  "list_files link_root = Inr [[''b.py''], [''a.py'']] \<and>
   analyze_directory link_fs ''/link'' link_root = Inr link_graph \<and>
   node_id (last (get_nodes link_graph)) = ''a.py::callee'' \<and>
   attributed_callers link_fs ''/link'' [[''b.py''], [''a.py'']] ''callee'' =
     [''b.py::other'', ''a.py::caller'', ''a.py::caller''] \<and>
   node_called_by (last (get_nodes link_graph)) = Some [''b.py::other'', ''a.py::caller'']"
proof -
  have wf: "\<forall>p \<in> set [[''b.py''], [''a.py'']]. wellformed_source link_fs ''/link'' p"
    by code_simp
  have n: "get_nodes link_graph \<noteq> [] \<and>
           node_type (last (get_nodes link_graph)) = FunctionNode \<and>
           node_name (last (get_nodes link_graph)) = ''callee'' \<and>
           node_id (last (get_nodes link_graph)) = ''a.py::callee''"
    by code_simp
  have a: "attributed_callers link_fs ''/link'' [[''b.py''], [''a.py'']] ''callee'' =
           [''b.py::other'', ''a.py::caller'', ''a.py::caller'']"
    by code_simp
  from n have m: "last (get_nodes link_graph) \<in> set (get_nodes link_graph)" by simp
  from call_resolution[OF link_listing link_analysis wf]
  have "\<forall>n \<in> set (get_nodes link_graph). node_type n = FunctionNode \<longrightarrow>
          node_called_by n =
            Some (first_seen (attributed_callers link_fs ''/link''
                    (take 50 [[''b.py''], [''a.py'']]) (node_name n)))"
    by blast
  from bspec[OF this m] n
  have "node_called_by (last (get_nodes link_graph)) =
        Some (first_seen (attributed_callers link_fs ''/link'' [[''b.py''], [''a.py'']] ''callee''))"
    by simp
  then have "node_called_by (last (get_nodes link_graph)) = Some [''b.py::other'', ''a.py::caller'']"
    by (simp add: a first_seen_def)
  with link_listing link_analysis n a show ?thesis by simp
qed

end
